theory Spec2Isabelle
  imports Complex_Main "HOL-Library.Multiset" "HOL-Library.Word"
begin

section \<open>Errors\<close>

text \<open>
  The exceptions the two scripts and the library routines they call can raise.
  \<open>Exception msg\<close> is the generic exception of \<open>experimental_data\<close>, carrying its message.
\<close>

datatype py_error = IndexError | ValueError | ZeroDivisionError | Exception string

section \<open>The heap queue routines used by \<open>heap_median\<close>\<close>

text \<open>
  \<open>median_perf.py\<close> imports \<open>heapq\<close> and calls \<open>heapify\<close> and \<open>heappop\<close>. The model follows
  the reference implementation \<open>Lib/heapq.py\<close> of CPython statement by statement. A Python
  list that a routine mutates is passed in and returned updated. The elements are taken
  from a linear order, which is what the comparisons \<open><\<close> of the library assume
  (numbers without NaN).

  \<^verbatim>\<open>
  def _siftdown(heap, startpos, pos):
      newitem = heap[pos]
      while pos > startpos:
          parentpos = (pos - 1) >> 1
          parent = heap[parentpos]
          if newitem < parent:
              heap[pos] = parent
              pos = parentpos
              continue
          break
      heap[pos] = newitem
  \<close>
\<close>

function siftdown_loop :: "'a::linorder list \<Rightarrow> nat \<Rightarrow> nat \<Rightarrow> 'a \<Rightarrow> 'a list \<times> nat" where
  "siftdown_loop heap startpos pos newitem =
     (if pos > startpos then
        (let parentpos = (pos - 1) div 2; parent = heap ! parentpos in
         if newitem < parent then siftdown_loop (heap[pos := parent]) startpos parentpos newitem
         else (heap, pos))
      else (heap, pos))"
  by pat_completeness auto
termination
  by (relation "measure (\<lambda>(heap, startpos, pos, newitem). pos)") auto

declare siftdown_loop.simps [simp del]

definition siftdown :: "'a::linorder list \<Rightarrow> nat \<Rightarrow> nat \<Rightarrow> py_error + 'a list" where
  "siftdown heap startpos pos =
     (if pos < length heap then
        (let newitem = heap ! pos;
             (heap', pos') = siftdown_loop heap startpos pos newitem
         in Inr (heap'[pos' := newitem]))
      else Inl IndexError)"

text \<open>
  \<^verbatim>\<open>
  def _siftup(heap, pos):
      endpos = len(heap)
      startpos = pos
      newitem = heap[pos]
      childpos = 2*pos + 1
      while childpos < endpos:
          rightpos = childpos + 1
          if rightpos < endpos and not heap[childpos] < heap[rightpos]:
              childpos = rightpos
          heap[pos] = heap[childpos]
          pos = childpos
          childpos = 2*pos + 1
      heap[pos] = newitem
      _siftdown(heap, startpos, pos)
  \<close>
\<close>

function siftup_loop :: "'a::linorder list \<Rightarrow> nat \<Rightarrow> 'a list \<times> nat" where
  "siftup_loop heap pos =
     (if 2 * pos + 1 < length heap then
        (let childpos = 2 * pos + 1;
             rightpos = childpos + 1;
             childpos = (if rightpos < length heap \<and> \<not> heap ! childpos < heap ! rightpos
                         then rightpos else childpos)
         in siftup_loop (heap[pos := heap ! childpos]) childpos)
      else (heap, pos))"
  by pat_completeness auto
termination
  by (relation "measure (\<lambda>(heap, pos). length heap - pos)") (auto simp: Let_def)

declare siftup_loop.simps [simp del]

definition siftup :: "'a::linorder list \<Rightarrow> nat \<Rightarrow> py_error + 'a list" where
  "siftup heap pos =
     (if pos < length heap then
        (let startpos = pos;
             newitem = heap ! pos;
             (heap', pos') = siftup_loop heap pos
         in siftdown (heap'[pos' := newitem]) startpos pos')
      else Inl IndexError)"

text \<open>
  \<^verbatim>\<open>
  def heapify(x):
      n = len(x)
      for i in reversed(range(n//2)):
          _siftup(x, i)
  \<close>
\<close>

fun heapify_loop :: "'a::linorder list \<Rightarrow> nat list \<Rightarrow> py_error + 'a list" where
  "heapify_loop x [] = Inr x"
| "heapify_loop x (i # is) =
     (case siftup x i of Inl e \<Rightarrow> Inl e | Inr x' \<Rightarrow> heapify_loop x' is)"

definition heapify :: "'a::linorder list \<Rightarrow> py_error + 'a list" where
  "heapify x = heapify_loop x (rev [0..<length x div 2])"

text \<open>
  \<^verbatim>\<open>
  def heappop(heap):
      lastelt = heap.pop()    # raises appropriate IndexError if heap is empty
      if heap:
          returnitem = heap[0]
          heap[0] = lastelt
          _siftup(heap, 0)
          return returnitem
      return lastelt
  \<close>
  The result is the returned item together with the list as the call leaves it.
\<close>

definition heappop :: "'a::linorder list \<Rightarrow> py_error + ('a \<times> 'a list)" where
  "heappop heap =
     (if heap = [] then Inl IndexError
      else
        (let lastelt = last heap; heap1 = butlast heap in
         if heap1 \<noteq> [] then
           (let returnitem = heap1 ! 0 in
            case siftup (heap1[0 := lastelt]) 0 of
              Inl e \<Rightarrow> Inl e
            | Inr heap2 \<Rightarrow> Inr (returnitem, heap2))
         else Inr (lastelt, heap1)))"

section \<open>The two median algorithms of \<open>median_perf.py\<close>\<close>

text \<open>
  \<^verbatim>\<open>
  def heap_median(L):
      hq.heapify(L)
      for n in range(len(L)//2):
          hq.heappop(L)
      return hq.heappop(L)
  \<close>
  \<open>pop_loop n L\<close> is the \<open>for\<close> loop: \<open>n\<close> pops whose items are dropped. \<open>heap_median\<close>
  returns the median together with the final contents of the caller's list \<open>L\<close>.
\<close>

fun pop_loop :: "nat \<Rightarrow> 'a::linorder list \<Rightarrow> py_error + 'a list" where
  "pop_loop 0 L = Inr L"
| "pop_loop (Suc n) L =
     (case heappop L of Inl e \<Rightarrow> Inl e | Inr (item, L') \<Rightarrow> pop_loop n L')"

definition heap_median :: "'a::linorder list \<Rightarrow> py_error + ('a \<times> 'a list)" where
  "heap_median L =
     (case heapify L of
        Inl e \<Rightarrow> Inl e
      | Inr L1 \<Rightarrow>
          (case pop_loop (length L1 div 2) L1 of
             Inl e \<Rightarrow> Inl e
           | Inr L2 \<Rightarrow> heappop L2))"

text \<open>
  \<^verbatim>\<open>
  def sort_median(L):
      sL = sorted(L)
      return sL[len(L)//2]
  \<close>
  \<open>sorted\<close> builds a new list, so the caller's list is returned as it came.
\<close>

definition sort_median :: "'a::linorder list \<Rightarrow> py_error + ('a \<times> 'a list)" where
  "sort_median L =
     (let sL = sort L in
      if length L div 2 < length sL then Inr (sL ! (length L div 2), L)
      else Inl IndexError)"

section \<open>The random number generator\<close>

text \<open>
  Both scripts import \<open>random\<close> as \<open>rng\<close> and draw from its hidden, global generator. The
  model makes that state explicit. \<open>mt_out\<close> is the sequence of 32-bit outputs that the
  Mersenne Twister delivers and \<open>mt_pos\<close> counts how many of them have been used;
  \<open>gauss_next\<close> is the spare deviate that \<open>gauss\<close> keeps between calls. \<open>sample_choice\<close>
  stands for the selection made by \<open>random.sample\<close>: given the generator position, the
  population size and the sample size it names the chosen positions and the generator
  position afterwards. \<open>clock_out\<close> and \<open>clock_pos\<close> are the successive readings of
  \<open>time.clock()\<close>. Python floats are taken as real numbers.
\<close>

record world =
  mt_out :: "nat \<Rightarrow> 32 word"
  mt_pos :: nat
  gauss_next :: "real option"
  sample_choice :: "nat \<Rightarrow> nat \<Rightarrow> nat \<Rightarrow> nat list \<times> nat"
  clock_out :: "nat \<Rightarrow> real"
  clock_pos :: nat

text \<open>
  \<open>random()\<close> of CPython builds a 53-bit fraction from two generator outputs:
  \<^verbatim>\<open>
  uint32_t a=genrand_uint32(self)>>5, b=genrand_uint32(self)>>6;
  return PyFloat_FromDouble((a*67108864.0+b)*(1.0/9007199254740992.0));
  \<close>
\<close>

definition rng_random :: "world \<Rightarrow> real \<times> world" where
  "rng_random w =
     (let a = drop_bit 5 (mt_out w (mt_pos w));
          b = drop_bit 6 (mt_out w (mt_pos w + 1))
      in ((real (unat a) * 67108864 + real (unat b)) * (1 / 9007199254740992),
          w\<lparr>mt_pos := mt_pos w + 2\<rparr>))"

text \<open>
  \<^verbatim>\<open>
  def gauss(self, mu=0.0, sigma=1.0):
      random = self.random
      z = self.gauss_next
      self.gauss_next = None
      if z is None:
          x2pi = random() * TWOPI
          g2rad = _sqrt(-2.0 * _log(1.0 - random()))
          z = _cos(x2pi) * g2rad
          self.gauss_next = _sin(x2pi) * g2rad
      return mu + z * sigma
  \<close>
\<close>

definition rng_gauss :: "real \<Rightarrow> real \<Rightarrow> world \<Rightarrow> real \<times> world" where
  "rng_gauss mu sigma w =
     (case gauss_next w of
        Some z \<Rightarrow> (mu + z * sigma, w\<lparr>gauss_next := None\<rparr>)
      | None \<Rightarrow>
          (let (r1, w1) = rng_random w;
               x2pi = r1 * (2 * pi);
               (r2, w2) = rng_random w1;
               g2rad = sqrt (- 2 * ln (1 - r2));
               z = cos x2pi * g2rad
           in (mu + z * sigma, w2\<lparr>gauss_next := Some (sin x2pi * g2rad)\<rparr>)))"

text \<open>
  \<^verbatim>\<open>
  def expovariate(self, lambd=1.0):
      return -_log(1.0 - self.random()) / lambd
  \<close>
\<close>

definition rng_expovariate :: "real \<Rightarrow> world \<Rightarrow> py_error + (real \<times> world)" where
  "rng_expovariate lambd w =
     (let (r, w1) = rng_random w in
      if lambd = 0 then Inl ZeroDivisionError else Inr (- ln (1 - r) / lambd, w1))"

text \<open>
  \<open>sample(population, k)\<close> raises \<open>ValueError\<close> unless \<open>0 <= k <= len(population)\<close> and
  otherwise returns the elements at the chosen positions, in the order chosen.
\<close>

definition rng_sample :: "'a list \<Rightarrow> int \<Rightarrow> world \<Rightarrow> py_error + ('a list \<times> world)" where
  "rng_sample population k w =
     (let n = length population in
      if \<not> (0 \<le> k \<and> k \<le> int n) then Inl ValueError
      else
        (let (idx, p) = sample_choice w (mt_pos w) n (nat k)
         in Inr (map (\<lambda>j. population ! j) idx, w\<lparr>mt_pos := p\<rparr>)))"


text \<open>
  A list comprehension \<open>[f() for i in range(n)]\<close> over a call that uses the generator and
  cannot fail, and one over a call that can raise.
\<close>

fun draws :: "(world \<Rightarrow> 'a \<times> world) \<Rightarrow> nat \<Rightarrow> world \<Rightarrow> 'a list \<times> world" where
  "draws f 0 w = ([], w)"
| "draws f (Suc n) w =
     (let (x, w1) = f w; (xs, w2) = draws f n w1 in (x # xs, w2))"

fun trials :: "(world \<Rightarrow> py_error + ('a \<times> world)) \<Rightarrow> nat \<Rightarrow> world \<Rightarrow> py_error + ('a list \<times> world)" where
  "trials f 0 w = Inr ([], w)"
| "trials f (Suc n) w =
     (case f w of
        Inl e \<Rightarrow> Inl e
      | Inr (x, w1) \<Rightarrow>
          (case trials f n w1 of
             Inl e \<Rightarrow> Inl e
           | Inr (xs, w2) \<Rightarrow> Inr (x # xs, w2)))"

text \<open>
  \<open>round\<close> on a float rounds to the nearest integer and a tie to the even one;
  \<open>str.lower\<close> is modelled on the code points below 256; \<open>range(start, stop, step)\<close> for
  a positive step.
\<close>

definition py_round :: "real \<Rightarrow> int" where
  "py_round x =
     (let f = \<lfloor>x\<rfloor>; d = x - of_int f in
      if d < 1 / 2 then f
      else if 1 / 2 < d then f + 1
      else if even f then f else f + 1)"

definition lower_char :: "char \<Rightarrow> char" where
  "lower_char c =
     (let n = of_char c :: nat in
      if (65 \<le> n \<and> n \<le> 90) \<or> (192 \<le> n \<and> n \<le> 222 \<and> n \<noteq> 215)
      then char_of (n + 32) else c)"

definition lower :: "string \<Rightarrow> string" where
  "lower s = map lower_char s"


section \<open>The accuracy experiment, \<open>median_estimate_accuracy.py\<close>\<close>

text \<open>
  \<^verbatim>\<open>
  def experimental_data(mode, length=16384):
      L = None
      if mode.lower()=="uniform":
          L = [rng.random() for i in range(length)]
      elif mode.lower()=="normal":
          L = [rng.gauss(mu=10.0, sigma=3.0) for i in range(length)]
          L = [round(val*10.0)/10.0 for val in L]
      elif mode.lower()=="exponential":
          L = [rng.expovariate(1/10.0) for i in range(length)]
          L = [round(val*10.0)/10.0 for val in L]
      if L == None:
          raise Exception("Please choose a valid mode. " + mode + " is not valid.")
      else:
          return L
  \<close>
\<close>

definition binned :: "real list \<Rightarrow> real list" where
  "binned L = map (\<lambda>val. real_of_int (py_round (val * 10)) / 10) L"

definition experimental_data :: "string \<Rightarrow> int \<Rightarrow> world \<Rightarrow> py_error + (real list \<times> world)" where
  "experimental_data mode len w =
     (let r =
        (if lower mode = ''uniform'' then
           (let (L, w1) = draws rng_random (nat len) w in Inr (Some L, w1))
         else if lower mode = ''normal'' then
           (let (L, w1) = draws (rng_gauss 10 3) (nat len) w in Inr (Some (binned L), w1))
         else if lower mode = ''exponential'' then
           (case trials (rng_expovariate (1 / 10)) (nat len) w of
              Inl e \<Rightarrow> Inl e
            | Inr (L, w1) \<Rightarrow> Inr (Some (binned L), w1))
         else Inr (None, w))
      in case r of
           Inl e \<Rightarrow> Inl e
         | Inr (None, w1) \<Rightarrow>
             Inl (Exception (''Please choose a valid mode. '' @ mode @ '' is not valid.''))
         | Inr (Some L, w1) \<Rightarrow> Inr (L, w1))"

text \<open>
  \<^verbatim>\<open>
  def score_median(data_mode, sample_size):
      data = experimental_data(data_mode)
      data.sort()
      actual_median = data[len(data)//2]
      sorted_sample = sorted(rng.sample(data, sample_size))
      estimated_median = sorted_sample[len(sorted_sample)//2]
      score = abs(estimated_median - actual_median)/actual_median
      return score
  \<close>
\<close>

definition score_median :: "string \<Rightarrow> int \<Rightarrow> world \<Rightarrow> py_error + (real \<times> world)" where
  "score_median data_mode sample_size w =
     (case experimental_data data_mode 16384 w of
        Inl e \<Rightarrow> Inl e
      | Inr (data, w1) \<Rightarrow>
          (let data = sort data in
           if \<not> length data div 2 < length data then Inl IndexError
           else
             (let actual_median = data ! (length data div 2) in
              case rng_sample data sample_size w1 of
                Inl e \<Rightarrow> Inl e
              | Inr (smp, w2) \<Rightarrow>
                  (let sorted_sample = sort smp in
                   if \<not> length sorted_sample div 2 < length sorted_sample then Inl IndexError
                   else
                     (let estimated_median = sorted_sample ! (length sorted_sample div 2) in
                      if actual_median = 0 then Inl ZeroDivisionError
                      else Inr (\<bar>estimated_median - actual_median\<bar> / actual_median, w2))))))"




section \<open>The performance experiment, \<open>median_perf.py\<close>\<close>

text \<open>
  \<^verbatim>\<open>
  def experimental_data(length):
      return [rng.random() for i in range(length)]

  def time_median(median_func, length):
      data = experimental_data(length)
      start_time = time.clock()
      median_func(data)
      end_time = time.clock()
      total_time = end_time - start_time
      return total_time

  def run_test():
      lengths = range(2**10, 2**19, 2**15)
      sorted_results, heap_results = {}, {}
      for length in lengths:
          sorted_results[length] = sum([time_median(sort_median, length) for i in range(5)])/5
          heap_results[length] = sum([time_median(heap_median, length) for i in range(5)])/5
      median_line_plot(sorted_results, heap_results)
  \<close>
\<close>

definition perf_experimental_data :: "int \<Rightarrow> world \<Rightarrow> real list \<times> world" where
  "perf_experimental_data len w = draws rng_random (nat len) w"




section \<open>Notions used to state the properties\<close>

text \<open>The value a call returned, if it returned one.\<close>

definition returned :: "'e + ('a \<times> 's) \<Rightarrow> 'a option" where
  "returned r = (case r of Inl e \<Rightarrow> None | Inr (v, s) \<Rightarrow> Some v)"

text \<open>
  The heap invariant as the documentation of \<open>heapq\<close> words it:
  \<open>heap[k] <= heap[2*k+1]\<close> and \<open>heap[k] <= heap[2*k+2]\<close> for all \<open>k\<close> for which the
  compared elements exist.
\<close>

definition is_heap :: "'a::linorder list \<Rightarrow> bool" where
  "is_heap h \<longleftrightarrow>
     (\<forall>k\<in>{0..<length h}.
        (2 * k + 1 < length h \<longrightarrow> h ! k \<le> h ! (2 * k + 1)) \<and>
        (2 * k + 2 < length h \<longrightarrow> h ! k \<le> h ! (2 * k + 2)))"

text \<open>
  The two middle elements of the sorted order of an even-length list are those at the
  positions \<open>len/2 - 1\<close> and \<open>len/2\<close>; the lower median is the smaller of them and the
  upper median the larger.
\<close>

definition lower_median :: "'a::linorder list \<Rightarrow> 'a" where
  "lower_median L = min (sort L ! (length L div 2 - 1)) (sort L ! (length L div 2))"

definition upper_median :: "'a::linorder list \<Rightarrow> 'a" where
  "upper_median L = max (sort L ! (length L div 2 - 1)) (sort L ! (length L div 2))"

text \<open>
  What \<open>random.sample\<close> promises of its selection: as many positions as asked for, all of
  them in the population and no position twice.
\<close>

definition sample_ok :: "world \<Rightarrow> bool" where
  "sample_ok w \<longleftrightarrow>
     (\<forall>p n k. k \<le> n \<longrightarrow>
        length (fst (sample_choice w p n k)) = k \<and>
        distinct (fst (sample_choice w p n k)) \<and>
        (\<forall>i\<in>set (fst (sample_choice w p n k)). i < n))"

text \<open>
  The population \<open>score_median\<close> generates, sorted, and the subsample it draws from it.
\<close>

definition population :: "string \<Rightarrow> world \<Rightarrow> real list" where
  "population mode w =
     (case experimental_data mode 16384 w of Inl e \<Rightarrow> [] | Inr (data, w1) \<Rightarrow> sort data)"

definition subsample :: "string \<Rightarrow> int \<Rightarrow> world \<Rightarrow> real list" where
  "subsample mode k w =
     (case experimental_data mode 16384 w of
        Inl e \<Rightarrow> []
      | Inr (data, w1) \<Rightarrow>
          (case rng_sample (sort data) k w1 of Inl e \<Rightarrow> [] | Inr (smp, w2) \<Rightarrow> smp))"

text \<open>
  The two medians \<open>score_median\<close> compares: the element at position \<open>len//2\<close> of the sorted
  population, and the element at position \<open>len//2\<close> of the sorted subsample.
\<close>

definition actual_median :: "string \<Rightarrow> world \<Rightarrow> real" where
  "actual_median mode w = population mode w ! (length (population mode w) div 2)"

definition estimated_median :: "string \<Rightarrow> int \<Rightarrow> world \<Rightarrow> real" where
  "estimated_median mode k w =
     sort (subsample mode k w) ! (length (subsample mode k w) div 2)"

section \<open>Auxiliary notions for the proofs\<close>

text \<open>
  Invariants of the two sifting routines. \<open>heap_from s h\<close>: every element whose parent sits at
  position \<open>s\<close> or later is at least its parent. \<open>hole_inv s pos h\<close>: the same, except
  around the position \<open>pos\<close> whose content is on the move; there the parent of \<open>pos\<close> is at
  most the children of \<open>pos\<close>. \<open>below x pos h\<close>: \<open>x\<close> is at most the children of \<open>pos\<close>.
  \<open>desc s p\<close>: position \<open>p\<close> lies in the subtree rooted at \<open>s\<close>.
\<close>

definition heap_from :: "nat \<Rightarrow> 'a::linorder list \<Rightarrow> bool" where
  "heap_from s h \<longleftrightarrow>
     (\<forall>c<length h. 0 < c \<and> s \<le> (c - 1) div 2 \<longrightarrow> h ! ((c - 1) div 2) \<le> h ! c)"

definition hole_inv :: "nat \<Rightarrow> nat \<Rightarrow> 'a::linorder list \<Rightarrow> bool" where
  "hole_inv s pos h \<longleftrightarrow>
     (\<forall>c<length h. 0 < c \<and> s \<le> (c - 1) div 2 \<longrightarrow>
        (c \<noteq> pos \<and> (c - 1) div 2 \<noteq> pos \<longrightarrow> h ! ((c - 1) div 2) \<le> h ! c) \<and>
        ((c - 1) div 2 = pos \<and> s < pos \<longrightarrow> h ! ((pos - 1) div 2) \<le> h ! c))"

definition below :: "'a::linorder \<Rightarrow> nat \<Rightarrow> 'a list \<Rightarrow> bool" where
  "below x pos h \<longleftrightarrow> (\<forall>c<length h. 0 < c \<and> (c - 1) div 2 = pos \<longrightarrow> x \<le> h ! c)"

inductive desc :: "nat \<Rightarrow> nat \<Rightarrow> bool" where
  desc_refl: "desc s s"
| desc_child: "desc s k \<Longrightarrow> 0 < c \<Longrightarrow> (c - 1) div 2 = k \<Longrightarrow> desc s c"

text \<open>
  \<open>expo_draw\<close> is \<open>rng.expovariate(1/10.0)\<close>, whose divisor is not zero. \<open>frame w w'\<close>: the
  generator outputs and the selection of \<open>sample\<close> are the same in \<open>w'\<close> as in \<open>w\<close>.
\<close>

definition expo_draw :: "world \<Rightarrow> real \<times> world" where
  "expo_draw w = (- ln (1 - fst (rng_random w)) / (1 / 10), snd (rng_random w))"

definition frame :: "world \<Rightarrow> world \<Rightarrow> bool" where
  "frame w w' \<longleftrightarrow> mt_out w' = mt_out w \<and> sample_choice w' = sample_choice w"

text \<open>
  Concrete generators on which the statements are tried. Their selections take the first,
  respectively the last, positions of the population. \<open>world_zero\<close> delivers only zero
  words, so every \<open>random()\<close> is 0. \<open>world_half\<close> delivers the word \<open>0x80000000\<close>
  throughout, so every \<open>random()\<close> is \<open>1/2 + 2^-28\<close>. In \<open>world_neg\<close> the first four
  words are zero and the rest repeat \<open>0xA0000000, 0, 0xFFFFFFFF, 0xFFFFFFFF\<close>, so that
  \<open>random()\<close> alternates between \<open>5/8\<close> and \<open>1 - 2^-53\<close>: the first two normal deviates
  are 10 and all later ones equal \<open>10 + 3 * z_neg\<close>, which is negative.
\<close>

definition first_positions :: "nat \<Rightarrow> nat \<Rightarrow> nat \<Rightarrow> nat list \<times> nat" where
  "first_positions p n k = ([0..<k], p + k)"

definition last_positions :: "nat \<Rightarrow> nat \<Rightarrow> nat \<Rightarrow> nat list \<times> nat" where
  "last_positions p n k = (rev [n - k..<n], p + k)"

definition world_zero :: world where
  "world_zero = \<lparr>mt_out = (\<lambda>i. 0), mt_pos = 0, gauss_next = None,
     sample_choice = first_positions, clock_out = (\<lambda>i. real i), clock_pos = 0\<rparr>"

definition world_half :: world where
  "world_half = \<lparr>mt_out = (\<lambda>i. 0x80000000), mt_pos = 0, gauss_next = None,
     sample_choice = first_positions, clock_out = (\<lambda>i. real i), clock_pos = 0\<rparr>"

definition words_neg :: "nat \<Rightarrow> 32 word" where
  "words_neg i =
     (if i < 4 then 0
      else if i mod 4 = 0 then 0xA0000000
      else if i mod 4 = 1 then 0
      else 0xFFFFFFFF)"

definition world_neg :: world where
  "world_neg = \<lparr>mt_out = words_neg, mt_pos = 0, gauss_next = None,
     sample_choice = last_positions, clock_out = (\<lambda>i. real i), clock_pos = 0\<rparr>"

definition z_neg :: real where
  "z_neg = - (sqrt 2 / 2) * sqrt (- 2 * ln (1 - 9007199254740991 / 9007199254740992))"

definition v_neg :: real where
  "v_neg = real_of_int (py_round ((10 + z_neg * 3) * 10)) / 10"

definition neg_data :: "real list" where
  "neg_data = [10, 10] @ replicate 16382 v_neg"

text \<open>Invariants of the generator state while these generators are drawn from.\<close>

definition neg_inv :: "world \<Rightarrow> bool" where
  "neg_inv w \<longleftrightarrow>
     mt_out w = words_neg \<and> 4 \<le> mt_pos w \<and> mt_pos w mod 4 = 0 \<and>
     (gauss_next w = None \<or> gauss_next w = Some z_neg)"

definition half_inv :: "world \<Rightarrow> bool" where
  "half_inv w \<longleftrightarrow>
     mt_out w = (\<lambda>i. 0x80000000) \<and> sample_choice w = first_positions \<and>
     (\<forall>z. gauss_next w = Some z \<longrightarrow> \<bar>z\<bar> \<le> 2)"

section \<open>Correctness of the heap queue routines\<close>

lemma desc_le: "desc s p \<Longrightarrow> s \<le> p"
  by (induction rule: desc.induct) auto

lemma desc_parent: "desc s p \<Longrightarrow> s < p \<Longrightarrow> desc s ((p - 1) div 2)"
  by (induction rule: desc.induct) auto

lemma desc_parent_le: "desc s p \<Longrightarrow> s < p \<Longrightarrow> s \<le> (p - 1) div 2"
  by (rule desc_le [OF desc_parent])

lemma hole_inv_update: "hole_inv s pos (h[pos := x]) = hole_inv s pos h"
proof -
  have "((c \<noteq> pos \<and> (c - 1) div 2 \<noteq> pos \<longrightarrow> h[pos := x] ! ((c - 1) div 2) \<le> h[pos := x] ! c) \<and>
        ((c - 1) div 2 = pos \<and> s < pos \<longrightarrow> h[pos := x] ! ((pos - 1) div 2) \<le> h[pos := x] ! c))
      = ((c \<noteq> pos \<and> (c - 1) div 2 \<noteq> pos \<longrightarrow> h ! ((c - 1) div 2) \<le> h ! c) \<and>
        ((c - 1) div 2 = pos \<and> s < pos \<longrightarrow> h ! ((pos - 1) div 2) \<le> h ! c))"
    if "0 < c" for c
  proof -
    have 1: "(c - 1) div 2 = pos \<Longrightarrow> c \<noteq> pos" using that by arith
    have 2: "s < pos \<Longrightarrow> (pos - 1) div 2 \<noteq> pos" by arith
    show ?thesis
      by (cases "c = pos"; cases "(c - 1) div 2 = pos"; cases "s < pos")
         (simp_all add: 1 2)
  qed
  then show ?thesis unfolding hole_inv_def by simp
qed

lemma hole_step_down:
  assumes inv: "hole_inv s pos h" and d: "desc s pos" and l: "2 * pos + 1 < length h"
    and c: "c = (if 2 * pos + 2 < length h \<and> \<not> h ! (2 * pos + 1) < h ! (2 * pos + 2)
                 then 2 * pos + 2 else 2 * pos + 1)"
  shows "hole_inv s c (h[pos := h ! c])"
proof -
  have sp: "s \<le> pos" using d by (rule desc_le)
  have cpos: "0 < c" "pos < c" "(c - 1) div 2 = pos" "c < length h"
    using c l by (auto split: if_splits)
  have sib: "h ! c \<le> h ! j" if "j < length h" "0 < j" "(j - 1) div 2 = pos" for j
  proof -
    have "j = 2 * pos + 1 \<or> j = 2 * pos + 2" using that by arith
    then show ?thesis using c that l by (auto split: if_splits)
  qed
  show ?thesis
    unfolding hole_inv_def
  proof (intro allI impI conjI)
    fix j
    assume j: "j < length (h[pos := h ! c])" "0 < j \<and> s \<le> (j - 1) div 2"
      and n: "j \<noteq> c \<and> (j - 1) div 2 \<noteq> c"
    show "h[pos := h ! c] ! ((j - 1) div 2) \<le> h[pos := h ! c] ! j"
    proof (cases "(j - 1) div 2 = pos")
      case True
      then have "j \<noteq> pos" using j by arith
      then show ?thesis using True sib [of j] j l by simp
    next
      case np: False
      show ?thesis
      proof (cases "j = pos")
        case True
        then have "s < pos" using j by arith
        then have "h ! ((pos - 1) div 2) \<le> h ! c"
          using inv cpos sp unfolding hole_inv_def by auto
        then show ?thesis using True np l by simp
      next
        case False
        then show ?thesis using inv j np unfolding hole_inv_def by auto
      qed
    qed
  next
    fix j
    assume j: "j < length (h[pos := h ! c])" "0 < j \<and> s \<le> (j - 1) div 2"
      and n: "(j - 1) div 2 = c \<and> s < c"
    have "j \<noteq> pos" "(j - 1) div 2 \<noteq> pos" using n cpos by arith+
    then have "h ! c \<le> h ! j" using inv j n unfolding hole_inv_def by auto
    then show "h[pos := h ! c] ! ((c - 1) div 2) \<le> h[pos := h ! c] ! j"
      using cpos l \<open>j \<noteq> pos\<close> by simp
  qed
qed

lemma mset_hole_move:
  assumes "pos < length h" "c < length h" "c \<noteq> pos"
  shows "mset (h[pos := h ! c, c := x]) = mset (h[pos := x])"
  using assms by (simp add: mset_update)

lemma siftup_loop_inv:
  assumes "siftup_loop h pos = (h', p')" "hole_inv s pos h" "desc s pos" "pos < length h"
  shows "hole_inv s p' h' \<and> desc s p' \<and> p' < length h' \<and> length h' = length h \<and>
         length h' \<le> 2 * p' + 1 \<and> (\<forall>x. mset (h'[p' := x]) = mset (h[pos := x]))"
  using assms
proof (induction h pos rule: siftup_loop.induct)
  case (1 heap pos)
  show ?case
  proof (cases "2 * pos + 1 < length heap")
    case False
    then have "(h', p') = (heap, pos)"
      using "1.prems"(1) by (simp add: siftup_loop.simps [of heap pos])
    then show ?thesis using "1.prems" False by auto
  next
    case True
    define c where "c = (if 2 * pos + 1 + 1 < length heap \<and> \<not> heap ! (2 * pos + 1) < heap ! (2 * pos + 1 + 1)
                 then 2 * pos + 1 + 1 else 2 * pos + 1)"
    have c2: "c = (if 2 * pos + 2 < length heap \<and> \<not> heap ! (2 * pos + 1) < heap ! (2 * pos + 2)
                 then 2 * pos + 2 else 2 * pos + 1)"
      by (simp add: c_def)
    have cpos: "0 < c" "pos < c" "(c - 1) div 2 = pos" "c < length heap"
      using c2 True by (auto split: if_splits)
    have run: "siftup_loop (heap[pos := heap ! c]) c = (h', p')"
    proof -
      have "siftup_loop heap pos = siftup_loop (heap[pos := heap ! c]) c"
        unfolding c_def using True
        by (subst siftup_loop.simps [of heap pos]) (simp add: Let_def)
      then show ?thesis using "1.prems"(1) by simp
    qed
    have inv: "hole_inv s c (heap[pos := heap ! c])"
      using "1.prems"(2,3) True c2 by (rule hole_step_down)
    have d: "desc s c" using "1.prems"(3) cpos by (auto intro: desc_child)
    note IH0 = "1.IH" [OF True refl refl refl, folded c_def]
    have IH: "hole_inv s p' h' \<and> desc s p' \<and> p' < length h' \<and>
         length h' = length (heap[pos := heap ! c]) \<and>
         length h' \<le> 2 * p' + 1 \<and> (\<forall>x. mset (h'[p' := x]) = mset (heap[pos := heap ! c, c := x]))"
      using run inv d cpos by (intro IH0) simp_all
    have "mset (heap[pos := heap ! c, c := x]) = mset (heap[pos := x])" for x
      using "1.prems"(4) cpos by (intro mset_hole_move) auto
    then show ?thesis using IH by simp
  qed
qed

lemma hole_step_up:
  assumes inv: "hole_inv s pos h" and b: "below x pos h" and d: "desc s pos"
    and sp: "s < pos" and l: "pos < length h" and lt: "x < h ! ((pos - 1) div 2)"
  shows "hole_inv s ((pos - 1) div 2) (h[pos := h ! ((pos - 1) div 2)])"
    and "below x ((pos - 1) div 2) (h[pos := h ! ((pos - 1) div 2)])"
proof -
  define q where "q = (pos - 1) div 2"
  have q: "q < pos" "s \<le> q" "0 < pos"
    using sp desc_parent_le [OF d sp] by (auto simp: q_def)
  have up: "h ! q \<le> h ! j" if "j < length h" "0 < j" "(j - 1) div 2 = q" "j \<noteq> pos" for j
    using inv that q unfolding hole_inv_def by auto
  have gp: "h ! ((q - 1) div 2) \<le> h ! q" if "s < q"
  proof -
    have "s \<le> (q - 1) div 2" using desc_parent_le [OF desc_parent [OF d sp] ] that
      by (simp add: q_def)
    moreover have "q \<noteq> pos" "(q - 1) div 2 \<noteq> pos" "0 < q" "q < length h"
      using q l that by arith+
    ultimately show ?thesis using inv unfolding hole_inv_def by auto
  qed
  show "hole_inv s ((pos - 1) div 2) (h[pos := h ! ((pos - 1) div 2)])"
    unfolding hole_inv_def q_def [symmetric]
  proof (intro allI impI conjI)
    fix j
    assume j: "j < length (h[pos := h ! q])" "0 < j \<and> s \<le> (j - 1) div 2"
      and n: "j \<noteq> q \<and> (j - 1) div 2 \<noteq> q"
    have jp: "j \<noteq> pos" using n q_def by auto
    show "h[pos := h ! q] ! ((j - 1) div 2) \<le> h[pos := h ! q] ! j"
    proof (cases "(j - 1) div 2 = pos")
      case True
      then have "h ! q \<le> h ! j"
        using inv j sp unfolding hole_inv_def q_def by auto
      then show ?thesis using True jp l by simp
    next
      case False
      then have "h ! ((j - 1) div 2) \<le> h ! j"
        using inv j jp unfolding hole_inv_def by auto
      then show ?thesis using False jp by simp
    qed
  next
    fix j
    assume j: "j < length (h[pos := h ! q])" "0 < j \<and> s \<le> (j - 1) div 2"
      and n: "(j - 1) div 2 = q \<and> s < q"
    have qq: "(q - 1) div 2 \<noteq> pos" using q by arith
    have "h ! ((q - 1) div 2) \<le> h ! q" using gp n by simp
    moreover have "h ! q \<le> h[pos := h ! q] ! j"
      using up [of j] j n l by (cases "j = pos") auto
    ultimately show "h[pos := h ! q] ! ((q - 1) div 2) \<le> h[pos := h ! q] ! j"
      using qq by simp
  qed
  show "below x ((pos - 1) div 2) (h[pos := h ! ((pos - 1) div 2)])"
    unfolding below_def q_def [symmetric]
  proof (intro allI impI)
    fix j
    assume j: "j < length (h[pos := h ! q])" "0 < j \<and> (j - 1) div 2 = q"
    have "h ! q \<le> h[pos := h ! q] ! j"
      using up [of j] j l by (cases "j = pos") auto
    then show "x \<le> h[pos := h ! q] ! j" using lt unfolding q_def [symmetric] by simp
  qed
qed

lemma hole_fill:
  assumes inv: "hole_inv s pos h" and b: "below x pos h"
    and l: "pos < length h" and stop: "s < pos \<longrightarrow> \<not> x < h ! ((pos - 1) div 2)"
    and d: "desc s pos"
  shows "heap_from s (h[pos := x])"
  unfolding heap_from_def
proof (intro allI impI)
  fix j
  assume j: "j < length (h[pos := x])" "0 < j \<and> s \<le> (j - 1) div 2"
  show "h[pos := x] ! ((j - 1) div 2) \<le> h[pos := x] ! j"
  proof (cases "j = pos")
    case True
    then have "s < pos" "(pos - 1) div 2 \<noteq> pos" using j by arith+
    then show ?thesis using stop True l by simp
  next
    case np: False
    show ?thesis
    proof (cases "(j - 1) div 2 = pos")
      case True
      then show ?thesis using b j np l unfolding below_def by simp
    next
      case False
      then show ?thesis using inv j np unfolding hole_inv_def by simp
    qed
  qed
qed

lemma siftdown_loop_inv:
  assumes "siftdown_loop h s pos x = (h', p')" "hole_inv s pos h" "below x pos h"
    "desc s pos" "pos < length h"
  shows "heap_from s (h'[p' := x]) \<and> mset (h'[p' := x]) = mset (h[pos := x]) \<and>
         length h' = length h"
  using assms
proof (induction h s pos x rule: siftdown_loop.induct)
  case (1 heap startpos pos newitem)
  show ?case
  proof (cases "startpos < pos \<and> newitem < heap ! ((pos - 1) div 2)")
    case False
    then have "(h', p') = (heap, pos)"
      using "1.prems"(1) by (auto simp: siftdown_loop.simps [of heap startpos pos] Let_def split: if_splits)
    moreover have "heap_from startpos (heap[pos := newitem])"
      using "1.prems"(2,3,5) _ "1.prems"(4) by (rule hole_fill) (use False in auto)
    ultimately show ?thesis by simp
  next
    case True
    define q where "q = (pos - 1) div 2"
    have q: "q < pos" "q < length heap" "q \<noteq> pos" using True "1.prems"(5) by (auto simp: q_def)
    have run: "siftdown_loop (heap[pos := heap ! q]) startpos q newitem = (h', p')"
      using "1.prems"(1) True by (simp add: siftdown_loop.simps [of heap startpos pos] Let_def q_def)
    have inv: "hole_inv startpos q (heap[pos := heap ! q])" "below newitem q (heap[pos := heap ! q])"
      unfolding q_def
      using hole_step_up [OF "1.prems"(2,3,4) conjunct1 [OF True] "1.prems"(5) conjunct2 [OF True]]
      by blast+
    have d: "desc startpos q" unfolding q_def
      by (rule desc_parent [OF "1.prems"(4) conjunct1 [OF True]])
    have IH: "heap_from startpos (h'[p' := newitem]) \<and>
       mset (h'[p' := newitem]) = mset (heap[pos := heap ! q, q := newitem]) \<and>
       length h' = length (heap[pos := heap ! q])"
      using True run inv d q by (intro "1.IH" [OF _ refl refl, folded q_def]) (simp_all add: q_def)
    have "mset (heap[pos := heap ! q, q := newitem]) = mset (heap[pos := newitem])"
      using "1.prems"(5) q by (intro mset_hole_move) auto
    then show ?thesis using IH by simp
  qed
qed

lemma heap_from_hole: "heap_from (Suc s) h \<Longrightarrow> hole_inv s s h"
  unfolding heap_from_def hole_inv_def
proof (intro allI impI conjI)
  fix c
  assume a: "\<forall>c<length h. 0 < c \<and> Suc s \<le> (c - 1) div 2 \<longrightarrow> h ! ((c - 1) div 2) \<le> h ! c"
    and c: "c < length h" "0 < c \<and> s \<le> (c - 1) div 2" "c \<noteq> s \<and> (c - 1) div 2 \<noteq> s"
  then have "Suc s \<le> (c - 1) div 2" by arith
  then show "h ! ((c - 1) div 2) \<le> h ! c" using a c by blast
next
  fix c
  assume "(c - 1) div 2 = s \<and> s < s"
  then show "h ! ((s - 1) div 2) \<le> h ! c" by simp
qed

lemma below_leaf: "length h \<le> 2 * pos + 1 \<Longrightarrow> below x pos h"
  unfolding below_def by (intro allI impI) arith

lemma siftup_correct:
  assumes hf: "heap_from (Suc s) h" and l: "s < length h"
  shows "\<exists>h'. siftup h s = Inr h' \<and> heap_from s h' \<and> mset h' = mset h \<and> length h' = length h"
proof -
  obtain h1 p1 where r1: "siftup_loop h s = (h1, p1)" by (cases "siftup_loop h s")
  have 1: "hole_inv s p1 h1" "desc s p1" "p1 < length h1" "length h1 = length h"
    "length h1 \<le> 2 * p1 + 1" "\<And>x. mset (h1[p1 := x]) = mset (h[s := x])"
    using siftup_loop_inv [OF r1 heap_from_hole [OF hf] desc_refl l] by auto
  define x where "x = h ! s"
  define h2 where "h2 = h1[p1 := x]"
  obtain h3 p3 where r2: "siftdown_loop h2 s p1 x = (h3, p3)" by (cases "siftdown_loop h2 s p1 x")
  have i2: "hole_inv s p1 h2" unfolding h2_def using 1(1) by (simp add: hole_inv_update)
  have b2: "below x p1 h2" unfolding h2_def using 1(5) by (intro below_leaf) simp
  have l2: "p1 < length h2" unfolding h2_def using 1(3) by simp
  have 2: "heap_from s (h3[p3 := x])" "mset (h3[p3 := x]) = mset (h2[p1 := x])" "length h3 = length h2"
    using siftdown_loop_inv [OF r2 i2 b2 1(2) l2] by auto
  have "h2 ! p1 = x" unfolding h2_def using 1(3) by simp
  then have "siftdown h2 s p1 = Inr (h3[p3 := x])"
    using l2 r2 by (simp add: siftdown_def)
  then have "siftup h s = Inr (h3[p3 := x])"
    using l r1 by (simp add: siftup_def x_def h2_def)
  moreover have "mset (h3[p3 := x]) = mset h"
    using 2(2) 1(6) [of x] by (simp add: h2_def x_def)
  moreover have "length (h3[p3 := x]) = length h"
    using 2(3) 1(4) by (simp add: h2_def)
  ultimately show ?thesis using 2(1) by simp
qed

lemma heapify_loop_correct:
  "heap_from k x \<Longrightarrow> k \<le> length x \<Longrightarrow>
   \<exists>x'. heapify_loop x (rev [0..<k]) = Inr x' \<and> heap_from 0 x' \<and> mset x' = mset x \<and> length x' = length x"
proof (induction k arbitrary: x)
  case 0
  then show ?case by simp
next
  case (Suc k)
  from siftup_correct [OF Suc.prems(1)] Suc.prems(2)
  obtain x1 where x1: "siftup x k = Inr x1" "heap_from k x1" "mset x1 = mset x" "length x1 = length x"
    by auto
  from Suc.IH [OF x1(2)] Suc.prems(2) x1(4)
  obtain x' where "heapify_loop x1 (rev [0..<k]) = Inr x'" "heap_from 0 x'" "mset x' = mset x1"
    "length x' = length x1" by auto
  then show ?case using x1 by simp
qed

lemma heap_from_half: "heap_from (length x div 2) x"
  unfolding heap_from_def by (intro allI impI) arith

lemma heapify_correct:
  "\<exists>x'. heapify x = Inr x' \<and> heap_from 0 x' \<and> mset x' = mset x \<and> length x' = length x"
  unfolding heapify_def by (rule heapify_loop_correct [OF heap_from_half]) simp

lemma heap_root_least: "heap_from 0 h \<Longrightarrow> i < length h \<Longrightarrow> h ! 0 \<le> h ! i"
proof (induction i rule: less_induct)
  case (less i)
  show ?case
  proof (cases "i = 0")
    case True
    then show ?thesis by simp
  next
    case False
    then have p: "(i - 1) div 2 < i" by arith
    have "h ! 0 \<le> h ! ((i - 1) div 2)" using less.IH [OF p less.prems(1)] less.prems(2) p by simp
    moreover have "h ! ((i - 1) div 2) \<le> h ! i"
      using less.prems False unfolding heap_from_def by simp
    ultimately show ?thesis by simp
  qed
qed

lemma heap_from_butlast_update:
  assumes "heap_from 0 h" shows "heap_from (Suc 0) ((butlast h)[0 := x])"
  unfolding heap_from_def
proof (intro allI impI)
  fix c
  assume c: "c < length ((butlast h)[0 := x])" "0 < c \<and> Suc 0 \<le> (c - 1) div 2"
  then have n: "c \<noteq> 0" "(c - 1) div 2 \<noteq> 0" "(c - 1) div 2 < length (butlast h)" "c < length h"
    by auto
  have "h ! ((c - 1) div 2) \<le> h ! c" using assms n unfolding heap_from_def by simp
  then show "(butlast h)[0 := x] ! ((c - 1) div 2) \<le> (butlast h)[0 := x] ! c"
    using n c by (simp add: nth_butlast)
qed

lemma heappop_correct:
  assumes hf: "heap_from 0 h" and ne: "h \<noteq> []"
  shows "\<exists>m h'. heappop h = Inr (m, h') \<and> heap_from 0 h' \<and> mset h = add_mset m (mset h') \<and>
           (\<forall>y\<in>set h. m \<le> y)"
proof (cases "butlast h = []")
  case True
  then obtain a where h: "h = [a]" using ne by (cases h) (auto split: if_splits)
  then have "heappop h = Inr (a, [])" by (simp add: heappop_def)
  moreover have "heap_from 0 ([]::'a list)" by (simp add: heap_from_def)
  ultimately show ?thesis using h by simp
next
  case False
  define g where "g = (butlast h)[0 := last h]"
  have lb: "0 < length (butlast h)" using False by blast
  have lg: "0 < length g" using lb by (simp add: g_def)
  from siftup_correct [OF heap_from_butlast_update [OF hf, of "last h"], folded g_def] lg
  obtain h' where h': "siftup g 0 = Inr h'" "heap_from 0 h'" "mset h' = mset g" by auto
  have b0: "butlast h ! 0 = h ! 0" using lb by (rule nth_butlast)
  have pop: "heappop h = Inr (h ! 0, h')"
    using ne False h' by (simp add: heappop_def g_def Let_def b0)
  have "mset h = add_mset (last h) (mset (butlast h))"
    using ne by (metis append_butlast_last_id mset.simps(2) mset_append union_mset_add_mset_right add.right_neutral mset.simps(1))
  moreover have "mset g = add_mset (last h) (mset (butlast h) - {#h ! 0#})"
    using lb by (simp add: g_def mset_update b0)
  moreover have "h ! 0 \<in># mset (butlast h)"
    using lb b0 by (metis nth_mem set_mset_mset)
  ultimately have "mset h = add_mset (h ! 0) (mset h')" using h'(3) by simp
  moreover have "\<forall>y\<in>set h. h ! 0 \<le> y"
    using heap_root_least [OF hf] by (auto simp: in_set_conv_nth)
  ultimately show ?thesis using pop h'(2) by simp
qed

lemma sort_pop:
  assumes "mset h = add_mset m (mset h')" "\<forall>y\<in>set h. m \<le> y"
  shows "sort h = m # sort h'"
proof (rule properties_for_sort)
  show "mset (m # sort h') = mset h" using assms(1) by simp
  have "set h' \<subseteq> set h" using assms(1) by (metis mset_subset_eq_add_right set_mset_mono set_mset_mset mset_subset_eq_add_left add_mset_add_single)
  then show "sorted (m # sort h')" using assms(2) by auto
qed

lemma sort_cong_mset: "mset xs = mset ys \<Longrightarrow> sort xs = sort ys"
  by (rule properties_for_sort) simp_all

lemma pop_loop_correct:
  "heap_from 0 h \<Longrightarrow> n \<le> length h \<Longrightarrow>
   \<exists>h'. pop_loop n h = Inr h' \<and> heap_from 0 h' \<and> sort h' = drop n (sort h)"
proof (induction n arbitrary: h)
  case 0
  then show ?case by simp
next
  case (Suc n)
  then have ne: "h \<noteq> []" by auto
  from heappop_correct [OF Suc.prems(1) ne]
  obtain m h1 where p: "heappop h = Inr (m, h1)" "heap_from 0 h1"
    "mset h = add_mset m (mset h1)" "\<forall>y\<in>set h. m \<le> y" by blast
  have s: "sort h = m # sort h1" using p(3,4) by (rule sort_pop)
  have "length h = Suc (length h1)" using p(3) by (metis size_mset size_add_mset)
  then have "n \<le> length h1" using Suc.prems(2) by simp
  from Suc.IH [OF p(2) this]
  obtain h' where "pop_loop n h1 = Inr h'" "heap_from 0 h'" "sort h' = drop n (sort h1)" by blast
  then show ?case using p(1) s by simp
qed

lemma heap_median_correct:
  assumes "L \<noteq> []"
  shows "\<exists>L'. heap_median L = Inr (sort L ! (length L div 2), L') \<and> heap_from 0 L' \<and>
           sort L' = drop (Suc (length L div 2)) (sort L)"
proof -
  define k where "k = length L div 2"
  have k: "k < length L" using assms by (simp add: k_def)
  from heapify_correct [of L]
  obtain L1 where 1: "heapify L = Inr L1" "heap_from 0 L1" "mset L1 = mset L" "length L1 = length L"
    by blast
  have s1: "sort L1 = sort L" using 1(3) by (rule sort_cong_mset)
  from pop_loop_correct [OF 1(2), of k] k 1(4)
  obtain L2 where 2: "pop_loop k L1 = Inr L2" "heap_from 0 L2" "sort L2 = drop k (sort L1)"
    by auto
  have "length (sort L2) = length L - k" using 2(3) s1 by simp
  then have ne: "L2 \<noteq> []" using k by auto
  from heappop_correct [OF 2(2) ne]
  obtain m L' where 3: "heappop L2 = Inr (m, L')" "heap_from 0 L'"
    "mset L2 = add_mset m (mset L')" "\<forall>y\<in>set L2. m \<le> y" by blast
  have "m # sort L' = drop k (sort L)" using sort_pop [OF 3(3,4)] 2(3) s1 by simp
  also have "\<dots> = sort L ! k # drop (Suc k) (sort L)"
    using k by (simp add: Cons_nth_drop_Suc)
  finally have "m = sort L ! k" "sort L' = drop (Suc k) (sort L)" by simp_all
  then show ?thesis using 1(1,4) 2(1) 3(1,2) by (simp add: heap_median_def k_def)
qed

section \<open>Properties of the two median algorithms\<close>

lemma heap_from_is_heap: "heap_from 0 h \<Longrightarrow> is_heap h"
  unfolding is_heap_def
proof (intro ballI impI conjI)
  fix k
  assume h: "heap_from 0 h" and l: "2 * k + 1 < length h"
  have "(2 * k + 1 - 1) div 2 = k" by simp
  then show "h ! k \<le> h ! (2 * k + 1)"
    using h l unfolding heap_from_def by (metis add_gr_0 le0 zero_less_one)
next
  fix k
  assume h: "heap_from 0 h" and l: "2 * k + 2 < length h"
  have "(2 * k + 2 - 1) div 2 = k" by arith
  then show "h ! k \<le> h ! (2 * k + 2)"
    using h l unfolding heap_from_def by (metis add_gr_0 le0 zero_less_numeral)
qed

lemma sort_median_correct:
  "L \<noteq> [] \<Longrightarrow> sort_median L = Inr (sort L ! (length L div 2), L)"
  by (simp add: sort_median_def)

lemma mset_drop_subset: "mset (drop n xs) \<subseteq># mset xs"
  by (metis append_take_drop_id mset_append mset_subset_eq_add_right)

lemma upper_median_nth:
  assumes "L \<noteq> []" shows "upper_median L = sort L ! (length L div 2)"
proof -
  have "length L div 2 - 1 \<le> length L div 2" "length L div 2 < length (sort L)"
    using assms by simp_all
  then have "sort L ! (length L div 2 - 1) \<le> sort L ! (length L div 2)"
    by (intro sorted_nth_mono) simp_all
  then show ?thesis by (simp add: upper_median_def)
qed

text \<open>
  Claim C1. For every non-empty list \<open>L\<close> (over a linear order), \<open>sort_median\<close> and
  \<open>heap_median\<close> return the same value, namely the element at position \<open>len(L)//2\<close>
  (counted from 0) of the sorted order of \<open>L\<close>.
\<close>

theorem C1_medians_agree:
  "L \<noteq> [] \<Longrightarrow>
   returned (sort_median L) = Some (sort L ! (length L div 2)) \<and>
   returned (heap_median L) = Some (sort L ! (length L div 2))"
  using heap_median_correct [of L] sort_median_correct [of L]
  by (auto simp: returned_def)

text \<open>Claim C1 at the list \<open>[3, 1, 2]\<close>, whose median is 2.\<close>

theorem C1_medians_agree_witness:
  "[3, 1, 2 :: int] \<noteq> [] \<and>
   returned (sort_median [3, 1, 2 :: int]) = Some 2 \<and>
   returned (heap_median [3, 1, 2 :: int]) = Some 2"
  using C1_medians_agree [of "[3, 1, 2 :: int]"] by simp

text \<open>
  Claim C2 says that on an even-length list both functions return the lower median, the
  smaller of the two middle elements. On \<open>[1, 2]\<close> the lower median is 1, and both
  functions return 2.
\<close>

theorem C2_lower_median_counterexample:
  "returned (sort_median [1, 2 :: int]) \<noteq> Some (lower_median [1, 2]) \<and>
   returned (heap_median [1, 2 :: int]) \<noteq> Some (lower_median [1, 2])"
  by code_simp

text \<open>
  Claim C2, amended. For every non-empty even-length list both functions return the
  upper median: the larger of the two middle elements of the sorted order.
\<close>

theorem C2_upper_median:
  "L \<noteq> [] \<Longrightarrow> even (length L) \<Longrightarrow>
   returned (sort_median L) = Some (upper_median L) \<and>
   returned (heap_median L) = Some (upper_median L)"
  using heap_median_correct [of L] sort_median_correct [of L] upper_median_nth [of L]
  by (auto simp: returned_def)

text \<open>Claim C2 as amended, at the list \<open>[1, 2]\<close>.\<close>

theorem C2_upper_median_witness:
  "[1, 2 :: int] \<noteq> [] \<and> even (length [1, 2 :: int]) \<and>
   returned (sort_median [1, 2 :: int]) = Some 2 \<and>
   returned (heap_median [1, 2 :: int]) = Some 2"
  using C2_upper_median [of "[1, 2 :: int]"] by (simp add: upper_median_def)

text \<open>
  Claim C3 says that on \<open>[1, 2, 3, 4, 5, 6, 7, 8, 9, 10]\<close> both functions return 5.
  Neither does.
\<close>

theorem C3_ten_elements_counterexample:
  "returned (sort_median [1, 2, 3, 4, 5, 6, 7, 8, 9, 10 :: int]) \<noteq> Some 5 \<and>
   returned (heap_median [1, 2, 3, 4, 5, 6, 7, 8, 9, 10 :: int]) \<noteq> Some 5"
  by code_simp

text \<open>
  Claim C3, amended. On \<open>[1, 2, 3, 4, 5, 6, 7, 8, 9, 10]\<close> both functions return 6, the
  element at position \<open>10//2 = 5\<close> counted from 0.
\<close>

theorem C3_ten_elements:
  "returned (sort_median [1, 2, 3, 4, 5, 6, 7, 8, 9, 10 :: int]) = Some 6 \<and>
   returned (heap_median [1, 2, 3, 4, 5, 6, 7, 8, 9, 10 :: int]) = Some 6"
  by code_simp

text \<open>
  Claim C10. \<open>sort_median\<close> leaves its argument as it was. \<open>heap_median\<close> does not: for
  a non-empty list of length \<open>n\<close> it leaves a list that satisfies the heap invariant, holds
  \<open>n//2 + 1\<close> elements fewer, namely the elements that follow the median in the sorted
  order of the original, and so differs from the list passed in.
\<close>

theorem C10_heap_median_mutates:
  assumes "L \<noteq> []"
  shows "(\<exists>m. sort_median L = Inr (m, L)) \<and>
         (\<exists>m L'. heap_median L = Inr (m, L') \<and> is_heap L' \<and>
                  length L' = length L - (length L div 2 + 1) \<and>
                  sort L' = drop (length L div 2 + 1) (sort L) \<and>
                  mset L' \<subseteq># mset L \<and> L' \<noteq> L)"
proof -
  from heap_median_correct [OF assms]
  obtain L' where h: "heap_median L = Inr (sort L ! (length L div 2), L')" "heap_from 0 L'"
    "sort L' = drop (Suc (length L div 2)) (sort L)" by blast
  have "length (sort L') = length L - (length L div 2 + 1)" using h(3) by simp
  then have len: "length L' = length L - (length L div 2 + 1)" by simp
  have "mset (sort L') \<subseteq># mset (sort L)" unfolding h(3) by (rule mset_drop_subset)
  then have sub: "mset L' \<subseteq># mset L" by simp
  have "length L' \<noteq> length L" using len assms by (cases L) auto
  then have "L' \<noteq> L" by auto
  then show ?thesis
    using h(1,3) heap_from_is_heap [OF h(2)] len sub sort_median_correct [OF assms] by auto
qed

text \<open>Claim C10 at \<open>[3, 1, 2]\<close>: \<open>heap_median\<close> returns 2 and leaves \<open>[3]\<close>.\<close>

theorem C10_heap_median_mutates_witness:
  "[3, 1, 2 :: int] \<noteq> [] \<and>
   sort_median [3, 1, 2 :: int] = Inr (2, [3, 1, 2]) \<and>
   heap_median [3, 1, 2 :: int] = Inr (2, [3]) \<and> is_heap [3 :: int] \<and>
   (\<exists>m L'. heap_median [3, 1, 2 :: int] = Inr (m, L') \<and> is_heap L' \<and>
            length L' = length [3, 1, 2 :: int] - (length [3, 1, 2 :: int] div 2 + 1) \<and>
            sort L' = drop (length [3, 1, 2 :: int] div 2 + 1) (sort [3, 1, 2 :: int]) \<and>
            mset L' \<subseteq># mset [3, 1, 2 :: int] \<and> L' \<noteq> [3, 1, 2 :: int])"
proof -
  have "heap_median [3, 1, 2 :: int] = Inr (2, [3])" by code_simp
  moreover have "sort_median [3, 1, 2 :: int] = Inr (2, [3, 1, 2])" by code_simp
  moreover have "is_heap [3 :: int]" by (simp add: is_heap_def)
  ultimately show ?thesis using C10_heap_median_mutates [of "[3, 1, 2 :: int]"] by simp
qed

section \<open>The generator and the list comprehensions\<close>

lemma unat_drop_bit_5: "unat (drop_bit 5 (x :: 32 word)) < 134217728"
proof -
  have "unat x < 2 ^ 32" using unsigned_less [of x] by simp
  then show ?thesis by (simp add: unat_drop_bit_eq drop_bit_eq_div unat_div)
qed

lemma unat_drop_bit_6: "unat (drop_bit 6 (x :: 32 word)) < 67108864"
proof -
  have "unat x < 2 ^ 32" using unsigned_less [of x] by simp
  then show ?thesis by (simp add: unat_drop_bit_eq drop_bit_eq_div unat_div)
qed

lemma rng_random_range: "0 \<le> fst (rng_random w) \<and> fst (rng_random w) < 1"
proof -
  define a where "a = unat (drop_bit 5 (mt_out w (mt_pos w)))"
  define b where "b = unat (drop_bit 6 (mt_out w (mt_pos w + 1)))"
  have "a < 134217728" "b < 67108864"
    unfolding a_def b_def by (rule unat_drop_bit_5, rule unat_drop_bit_6)
  then have "a * 67108864 + b < 9007199254740992" by arith
  then have "real (a * 67108864 + b) < 9007199254740992" by (metis of_nat_less_iff of_nat_numeral)
  then have "real a * 67108864 + real b < 9007199254740992" by simp
  moreover have "fst (rng_random w) = (real a * 67108864 + real b) * (1 / 9007199254740992)"
    by (simp add: rng_random_def a_def b_def Let_def)
  ultimately show ?thesis by simp
qed

lemma rng_random_state: "snd (rng_random w) = w\<lparr>mt_pos := mt_pos w + 2\<rparr>"
  by (simp add: rng_random_def Let_def)

lemma rng_random_fst:
  "fst (rng_random w) =
     (real (unat (drop_bit 5 (mt_out w (mt_pos w)))) * 67108864 +
      real (unat (drop_bit 6 (mt_out w (Suc (mt_pos w)))))) * (1 / 9007199254740992)"
  by (simp add: rng_random_def Let_def)

lemma rng_random_zero: "mt_out w = (\<lambda>i. 0) \<Longrightarrow> fst (rng_random w) = 0"
  by (simp add: rng_random_def Let_def)

lemma rng_random_half:
  "mt_out w = (\<lambda>i. 0x80000000) \<Longrightarrow> fst (rng_random w) = 134217729 / 268435456"
  by (simp add: rng_random_def Let_def)

lemma draws_Suc:
  "draws f (Suc n) w =
     (fst (f w) # fst (draws f n (snd (f w))), snd (draws f n (snd (f w))))"
  by (simp add: case_prod_beta Let_def)

lemma draws_2: "draws f 2 w = ([fst (f w), fst (f (snd (f w)))], snd (f (snd (f w))))"
proof -
  have "draws f (Suc (Suc 0)) w = ([fst (f w), fst (f (snd (f w)))], snd (f (snd (f w))))"
    by (simp add: draws_Suc del: draws.simps(2))
  then show ?thesis by (simp add: numeral_2_eq_2)
qed

lemma draws_add:
  "draws f (m + n) w =
     (fst (draws f m w) @ fst (draws f n (snd (draws f m w))),
      snd (draws f n (snd (draws f m w))))"
  by (induction m arbitrary: w) (simp_all add: draws_Suc del: draws.simps(2))

lemma draws_length: "length (fst (draws f n w)) = n"
  by (induction n arbitrary: w) (simp_all add: draws_Suc del: draws.simps(2))

lemma draws_inv:
  assumes "\<And>w. I w \<Longrightarrow> Q (fst (f w)) \<and> I (snd (f w))" and "I w"
  shows "(\<forall>x\<in>set (fst (draws f n w)). Q x) \<and> I (snd (draws f n w))"
  using assms(2)
proof (induction n arbitrary: w)
  case 0
  then show ?case by simp
next
  case (Suc n)
  have 1: "Q (fst (f w))" "I (snd (f w))" using assms(1) [OF Suc.prems] by auto
  from Suc.IH [OF 1(2)] 1(1) show ?case
    by (simp add: draws_Suc del: draws.simps(2))
qed

lemma draws_const:
  assumes "\<And>w. I w \<Longrightarrow> fst (f w) = c \<and> I (snd (f w))" and "I w"
  shows "fst (draws f n w) = replicate n c"
proof -
  have "\<forall>x\<in>set (fst (draws f n w)). x = c"
    using draws_inv [of I "\<lambda>x. x = c" f w n] assms by simp
  then show ?thesis
    using draws_length [of f n w] by (metis replicate_eqI)
qed

lemma draws_const_words:
  assumes "\<And>w. mt_out w = ws \<Longrightarrow> fst (rng_random w) = c" and "mt_out w = ws"
  shows "\<forall>x\<in>set (fst (draws rng_random n w)). x = c"
  using draws_inv [of "\<lambda>w. mt_out w = ws" "\<lambda>x. x = c" rng_random w n] assms
  by (simp add: rng_random_state)

lemma trials_total:
  assumes "\<And>w. f w = Inr (g w)"
  shows "trials f n w = Inr (draws g n w)"
  by (induction n arbitrary: w) (simp_all add: assms draws_Suc case_prod_beta del: draws.simps(2))



lemma rng_expovariate_total: "rng_expovariate (1 / 10) w = Inr (expo_draw w)"
  by (simp add: rng_expovariate_def expo_draw_def split: prod.splits)

lemma rng_gauss_cases:
  "rng_gauss mu sigma w =
     (case gauss_next w of
        Some z \<Rightarrow> (mu + z * sigma, w\<lparr>gauss_next := None\<rparr>)
      | None \<Rightarrow>
          (mu + cos (fst (rng_random w) * (2 * pi)) *
                sqrt (- 2 * ln (1 - fst (rng_random (snd (rng_random w))))) * sigma,
           (snd (rng_random (snd (rng_random w))))
             \<lparr>gauss_next := Some (sin (fst (rng_random w) * (2 * pi)) *
                sqrt (- 2 * ln (1 - fst (rng_random (snd (rng_random w))))))\<rparr>))"
  by (simp add: rng_gauss_def Let_def case_prod_beta split: option.splits)

lemma rng_gauss_None:
  assumes "gauss_next w = None"
    and "fst (rng_random w) = r1"
    and "fst (rng_random (w\<lparr>mt_pos := Suc (Suc (mt_pos w))\<rparr>)) = r2"
  shows "rng_gauss mu sigma w =
     (mu + cos (r1 * (2 * pi)) * sqrt (- 2 * ln (1 - r2)) * sigma,
      w\<lparr>mt_pos := mt_pos w + 4, gauss_next := Some (sin (r1 * (2 * pi)) * sqrt (- 2 * ln (1 - r2)))\<rparr>)"
  using assms by (simp add: rng_gauss_cases rng_random_state)

lemma frame_refl: "frame w w"
  by (simp add: frame_def)

lemma frame_trans: "frame w w1 \<Longrightarrow> frame w1 w2 \<Longrightarrow> frame w w2"
  by (simp add: frame_def)

lemma frame_random: "frame w (snd (rng_random w))"
  by (simp add: frame_def rng_random_state)

lemma frame_gauss: "frame w (snd (rng_gauss mu sigma w))"
  by (simp add: rng_gauss_cases frame_def rng_random_state split: option.splits)

lemma frame_expo: "frame w (snd (expo_draw w))"
  by (simp add: expo_draw_def frame_random)

lemma frame_draws:
  assumes "\<And>w. frame w (snd (f w))"
  shows "frame w (snd (draws f n w))"
  using draws_inv [of "frame w" "\<lambda>x. True" f w n] assms
  by (meson frame_refl frame_trans)

lemma expo_draw_nonneg: "0 \<le> fst (expo_draw w)"
proof -
  have "ln (1 - fst (rng_random w)) \<le> 0"
    using rng_random_range [of w] by (intro ln_le_zero_iff [THEN iffD2]) auto
  then show ?thesis by (simp add: expo_draw_def)
qed

lemma py_round_nonneg: "0 \<le> x \<Longrightarrow> 0 \<le> py_round x"
  by (simp add: py_round_def Let_def)

lemma py_round_neg: "x < - 1 / 2 \<Longrightarrow> py_round x < 0"
proof -
  assume a: "x < - 1 / 2"
  then have f: "\<lfloor>x\<rfloor> \<le> - 1" by (simp add: floor_le_iff)
  have "py_round x < 0" if "1 / 2 \<le> x - of_int \<lfloor>x\<rfloor>"
  proof -
    have "real_of_int \<lfloor>x\<rfloor> \<le> x - 1 / 2" using that by simp
    then have "real_of_int \<lfloor>x\<rfloor> < - 1" using a by simp
    then have "\<lfloor>x\<rfloor> < - 1" by linarith
    then show ?thesis by (simp add: py_round_def Let_def)
  qed
  moreover have "py_round x < 0" if "x - of_int \<lfloor>x\<rfloor> < 1 / 2"
    using that f by (simp add: py_round_def Let_def)
  ultimately show ?thesis by linarith
qed

lemma py_round_int: "py_round (of_int n) = n"
  by (simp add: py_round_def Let_def)


lemma binned_length: "length (binned L) = length L"
  by (simp add: binned_def)

lemma binned_nonneg: "\<forall>x\<in>set L. 0 \<le> x \<Longrightarrow> \<forall>x\<in>set (binned L). 0 \<le> x"
  by (auto simp: binned_def py_round_nonneg)


lemma binned_10: "real_of_int (py_round (10 * 10)) / 10 = 10"
  using py_round_int [of 100] by simp

lemma lower_uniform: "lower ''uniform'' = ''uniform''" by code_simp

lemma lower_normal: "lower ''normal'' = ''normal''" by code_simp


lemma lower_Uniform: "lower ''Uniform'' = ''uniform''" by code_simp

lemma lower_gamma: "lower ''gamma'' = ''gamma''" by code_simp

section \<open>Properties of \<open>experimental_data\<close>\<close>

lemma experimental_data_uniform:
  "lower mode = ''uniform'' \<Longrightarrow>
   experimental_data mode len w =
     Inr (fst (draws rng_random (nat len) w), snd (draws rng_random (nat len) w))"
  by (simp add: experimental_data_def Let_def case_prod_beta)

lemma experimental_data_normal:
  "lower mode = ''normal'' \<Longrightarrow>
   experimental_data mode len w =
     Inr (binned (fst (draws (rng_gauss 10 3) (nat len) w)), snd (draws (rng_gauss 10 3) (nat len) w))"
  by (simp add: experimental_data_def Let_def split: prod.splits)

lemma experimental_data_exponential:
  "lower mode = ''exponential'' \<Longrightarrow>
   experimental_data mode len w =
     Inr (binned (fst (draws expo_draw (nat len) w)), snd (draws expo_draw (nat len) w))"
  by (simp add: experimental_data_def Let_def trials_total [of _ expo_draw, OF rng_expovariate_total]
      split: prod.splits)

lemma experimental_data_invalid:
  "lower mode \<notin> {''uniform'', ''normal'', ''exponential''} \<Longrightarrow>
   experimental_data mode len w =
     Inl (Exception (''Please choose a valid mode. '' @ mode @ '' is not valid.''))"
  by (simp add: experimental_data_def Let_def)

lemma experimental_data_returns:
  assumes "0 \<le> len" and "lower mode \<in> {''uniform'', ''normal'', ''exponential''}"
  shows "\<exists>L w'. experimental_data mode len w = Inr (L, w') \<and> int (length L) = len"
proof -
  from assms(2)
  consider "lower mode = ''uniform''" | "lower mode = ''normal''" | "lower mode = ''exponential''"
    by auto
  then show ?thesis
  proof cases
    case 1
    show ?thesis
      using experimental_data_uniform [OF 1, of len w] assms(1)
        draws_length [of rng_random "nat len" w]
      by (cases "draws rng_random (nat len) w") simp
  next
    case 2
    show ?thesis
      using experimental_data_normal [OF 2, of len w] assms(1)
        draws_length [of "rng_gauss 10 3" "nat len" w] by (auto simp: binned_length)
  next
    case 3
    show ?thesis
      using experimental_data_exponential [OF 3, of len w] assms(1)
        draws_length [of expo_draw "nat len" w] by (auto simp: binned_length)
  qed
qed

lemma experimental_data_length:
  assumes "experimental_data mode len w = Inr (data, w1)" "0 \<le> len"
  shows "length data = nat len"
proof -
  have "lower mode \<in> {''uniform'', ''normal'', ''exponential''}"
    using assms experimental_data_invalid [of mode len w] by auto
  then show ?thesis using experimental_data_returns [OF assms(2), of mode w] assms(1) by auto
qed

lemma experimental_data_frame:
  assumes "experimental_data mode len w = Inr (data, w1)"
  shows "frame w w1"
proof -
  have v: "lower mode = ''uniform'' \<or> lower mode = ''normal'' \<or> lower mode = ''exponential''"
    using assms experimental_data_invalid [of mode len w] by auto
  then show ?thesis
    using assms frame_draws [of rng_random w "nat len", OF frame_random]
      frame_draws [of "rng_gauss 10 3" w "nat len", OF frame_gauss]
      frame_draws [of expo_draw w "nat len", OF frame_expo]
    by (auto simp: experimental_data_uniform experimental_data_normal experimental_data_exponential)
qed

lemma experimental_data_nonneg:
  assumes "experimental_data mode len w = Inr (data, w1)" "lower mode \<noteq> ''normal''"
  shows "\<forall>x\<in>set data. 0 \<le> x"
proof -
  have v: "lower mode = ''uniform'' \<or> lower mode = ''exponential''"
    using assms experimental_data_invalid [of mode len w] by auto
  have u: "\<forall>x\<in>set (fst (draws rng_random n w)). 0 \<le> x" for n
    using draws_inv [of "\<lambda>w. True" "\<lambda>x. 0 \<le> x" rng_random w n]
    by (simp add: rng_random_range)
  have e: "\<forall>x\<in>set (fst (draws expo_draw n w)). 0 \<le> x" for n
    using draws_inv [of "\<lambda>w. True" "\<lambda>x. 0 \<le> x" expo_draw w n]
    by (simp add: expo_draw_nonneg)
  from v show ?thesis
  proof
    assume m: "lower mode = ''uniform''"
    then show ?thesis using assms(1) u [of "nat len"]
      by (simp add: experimental_data_uniform)
  next
    assume m: "lower mode = ''exponential''"
    then show ?thesis using assms(1) binned_nonneg [OF e [of "nat len"]]
      by (simp add: experimental_data_exponential)
  qed
qed


lemma half_random:
  assumes "half_inv w"
  shows "fst (rng_random w) = 134217729 / 268435456" "half_inv (snd (rng_random w))"
  using assms by (simp_all add: half_inv_def rng_random_half rng_random_state)

lemma world_half_two_draws:
  "fst (draws rng_random 2 world_half) = [134217729 / 268435456, 134217729 / 268435456]"
proof -
  have h: "half_inv world_half" by (simp add: half_inv_def world_half_def)
  show ?thesis
    unfolding draws_2 fst_conv half_random(1) [OF h] half_random(1) [OF half_random(2) [OF h]] ..
qed

text \<open>
  Claim C4. For every mode string and every non-negative length, \<open>experimental_data\<close>
  raises the exception whose message quotes the given mode exactly when the lowercased
  mode is none of \<open>uniform\<close>, \<open>normal\<close>, \<open>exponential\<close>; for these three modes, in any
  letter case, it returns a list of exactly \<open>length\<close> numbers.
\<close>

theorem C4_experimental_data_modes:
  assumes "0 \<le> len"
  shows "(lower mode \<notin> {''uniform'', ''normal'', ''exponential''} \<longrightarrow>
            experimental_data mode len w =
              Inl (Exception (''Please choose a valid mode. '' @ mode @ '' is not valid.''))) \<and>
         (lower mode \<in> {''uniform'', ''normal'', ''exponential''} \<longrightarrow>
            (\<exists>L w'. experimental_data mode len w = Inr (L, w') \<and> int (length L) = len))"
  using experimental_data_invalid [of mode len w] experimental_data_returns [OF assms, of mode w]
  by blast

text \<open>
  Claim C4 at length 3, for the mode \<open>Uniform\<close>, which is accepted, and for the mode
  \<open>gamma\<close>, which is refused.
\<close>

theorem C4_experimental_data_modes_witness:
  "(0 :: int) \<le> 3 \<and>
   lower ''Uniform'' \<in> {''uniform'', ''normal'', ''exponential''} \<and>
   (\<exists>L w'. experimental_data ''Uniform'' 3 world_half = Inr (L, w') \<and> int (length L) = 3) \<and>
   lower ''gamma'' \<notin> {''uniform'', ''normal'', ''exponential''} \<and>
   experimental_data ''gamma'' 3 world_half =
     Inl (Exception ''Please choose a valid mode. gamma is not valid.'')"
  using C4_experimental_data_modes [of 3 "''Uniform''" world_half]
    C4_experimental_data_modes [of 3 "''gamma''" world_half]
  by (simp add: lower_Uniform lower_gamma)

text \<open>
  Claim C7. For every length, every element of the list that \<open>experimental_data\<close> returns
  in mode \<open>uniform\<close>, and every element of the list that the \<open>experimental_data\<close> of the
  performance script returns, lies in the half-open interval from 0 to 1.
\<close>

theorem C7_uniform_range:
  "(lower mode = ''uniform'' \<longrightarrow> returned (experimental_data mode len w) = Some L \<longrightarrow>
      (\<forall>x\<in>set L. 0 \<le> x \<and> x < 1)) \<and>
   (\<forall>x\<in>set (fst (perf_experimental_data len w)). 0 \<le> x \<and> x < 1)"
proof -
  have r: "\<forall>x\<in>set (fst (draws rng_random n w)). 0 \<le> x \<and> x < 1" for n
    using draws_inv [of "\<lambda>w. True" "\<lambda>x. 0 \<le> x \<and> x < 1" rng_random w n]
    by (simp add: rng_random_range)
  have "L = fst (draws rng_random (nat len) w)"
    if "lower mode = ''uniform''" "returned (experimental_data mode len w) = Some L"
    using that by (simp add: experimental_data_uniform returned_def case_prod_beta)
  then have "\<forall>x\<in>set L. 0 \<le> x \<and> x < 1"
    if "lower mode = ''uniform''" "returned (experimental_data mode len w) = Some L"
    using that r by blast
  then show ?thesis
    using r by (simp add: perf_experimental_data_def)
qed

text \<open>Claim C7 at length 2 on \<open>world_half\<close>, where both draws are \<open>1/2 + 2^-28\<close>.\<close>

theorem C7_uniform_range_witness:
  "lower ''uniform'' = ''uniform'' \<and>
   returned (experimental_data ''uniform'' 2 world_half) =
     Some [134217729 / 268435456, 134217729 / 268435456] \<and>
   fst (perf_experimental_data 2 world_half) = [134217729 / 268435456, 134217729 / 268435456] \<and>
   (0 :: real) \<le> 134217729 / 268435456 \<and> (134217729 / 268435456 :: real) < 1"
proof -
  have e: "returned (experimental_data ''uniform'' 2 world_half) =
     Some [134217729 / 268435456, 134217729 / 268435456]"
    using world_half_two_draws
    by (simp add: experimental_data_uniform lower_uniform returned_def case_prod_beta)
  have p: "fst (perf_experimental_data 2 world_half) =
      [134217729 / 268435456, 134217729 / 268435456]"
    using world_half_two_draws by (simp add: perf_experimental_data_def)
  show ?thesis
    using C7_uniform_range [of "''uniform''" 2 world_half
        "[134217729 / 268435456, 134217729 / 268435456]"] e p
    by (simp add: lower_uniform)
qed

text \<open>
  Claim C8 is about the elements in the modes \<open>normal\<close> and \<open>exponential\<close>, each of which
  is \<open>round(val*10.0)/10.0\<close>. Over the real numbers, which stand for the floats here, that
  is an integer divided by ten. What it is as a binary floating-point value, the nearest
  double to that quotient, is beyond this model.
\<close>

lemma binned_tenths: "\<forall>x\<in>set (binned L). \<exists>k :: int. x = real_of_int k / 10"
  by (auto simp: binned_def)

section \<open>Properties of \<open>score_median\<close>\<close>

lemma sample_ok_frame: "frame w w1 \<Longrightarrow> sample_ok w \<Longrightarrow> sample_ok w1"
  by (simp add: frame_def sample_ok_def)

lemma sample_ok_first: "sample_choice w = first_positions \<Longrightarrow> sample_ok w"
  by (simp add: sample_ok_def first_positions_def)

lemma sample_ok_last: "sample_choice w = last_positions \<Longrightarrow> sample_ok w"
  by (auto simp: sample_ok_def last_positions_def)

lemma score_median_eq:
  assumes d: "experimental_data mode 16384 w = Inr (data, w1)" and ok: "sample_ok w"
    and k: "1 \<le> k" "k \<le> 16384"
  shows "score_median mode k w =
     (let a = sort data ! 8192;
          smp = map (\<lambda>j. sort data ! j) (fst (sample_choice w1 (mt_pos w1) 16384 (nat k)));
          e = sort smp ! (nat k div 2)
      in if a = 0 then Inl ZeroDivisionError
         else Inr (\<bar>e - a\<bar> / a, w1\<lparr>mt_pos := snd (sample_choice w1 (mt_pos w1) 16384 (nat k))\<rparr>))"
proof -
  have l: "length data = 16384" using experimental_data_length [OF d] by simp
  have ok1: "sample_ok w1" using experimental_data_frame [OF d] ok by (rule sample_ok_frame)
  have "nat k \<le> 16384" using k by simp
  then have li: "length (fst (sample_choice w1 (mt_pos w1) 16384 (nat k))) = nat k"
    using ok1 unfolding sample_ok_def by blast
  have kk: "nat k div 2 < nat k" using k by simp
  show ?thesis
    using k l li kk
    by (simp add: score_median_def d rng_sample_def Let_def case_prod_beta)
qed

lemma mset_map_nth_subset:
  assumes "distinct idx" "\<forall>i\<in>set idx. i < length xs"
  shows "mset (map (\<lambda>j. xs ! j) idx) \<subseteq># mset xs"
proof -
  have "mset idx = mset_set (set idx)" using assms(1) by (simp add: mset_set_set)
  moreover have "mset [0..<length xs] = mset_set {0..<length xs}" by (simp add: mset_set_set)
  moreover have "set idx \<subseteq> {0..<length xs}" using assms(2) by auto
  ultimately have "mset idx \<subseteq># mset [0..<length xs]"
    by (simp add: subset_imp_msubset_mset_set)
  then have "image_mset (\<lambda>j. xs ! j) (mset idx) \<subseteq># image_mset (\<lambda>j. xs ! j) (mset [0..<length xs])"
    by (rule image_mset_subseteq_mono)
  moreover have "image_mset (\<lambda>j. xs ! j) (mset [0..<length xs]) = mset xs"
    by (metis map_nth mset_map)
  ultimately show ?thesis by simp
qed

lemma score_median_spec:
  assumes ok: "sample_ok w" and mode: "lower mode \<in> {''uniform'', ''normal'', ''exponential''}"
    and k: "1 \<le> k" "k \<le> 16384"
  shows "length (population mode w) = 16384" "sorted (population mode w)"
    "length (subsample mode k w) = nat k"
    "mset (subsample mode k w) \<subseteq># mset (population mode w)"
    "actual_median mode w \<noteq> 0 \<Longrightarrow>
       returned (score_median mode k w) =
         Some (\<bar>estimated_median mode k w - actual_median mode w\<bar> / actual_median mode w)"
    "actual_median mode w = 0 \<Longrightarrow> score_median mode k w = Inl ZeroDivisionError"
proof -
  from experimental_data_returns [of 16384 mode w] mode
  obtain data w1 where d: "experimental_data mode 16384 w = Inr (data, w1)" "length data = 16384"
    by auto
  define idx where "idx = fst (sample_choice w1 (mt_pos w1) 16384 (nat k))"
  have ok1: "sample_ok w1" using experimental_data_frame [OF d(1)] ok by (rule sample_ok_frame)
  have "nat k \<le> 16384" using k by simp
  then have i: "length idx = nat k" "distinct idx" "\<forall>i\<in>set idx. i < 16384"
    using ok1 unfolding sample_ok_def idx_def by blast+
  have p: "population mode w = sort data" by (simp add: population_def d)
  have s: "subsample mode k w = map (\<lambda>j. sort data ! j) idx"
    using k d by (simp add: subsample_def rng_sample_def idx_def case_prod_beta)
  show "length (population mode w) = 16384" "sorted (population mode w)"
    using d p by simp_all
  show "length (subsample mode k w) = nat k" using s i by simp
  show "mset (subsample mode k w) \<subseteq># mset (population mode w)"
    unfolding s p using i d(2) by (intro mset_map_nth_subset) simp_all
  have a: "actual_median mode w = sort data ! 8192"
    by (simp add: actual_median_def p d)
  have e: "estimated_median mode k w = sort (map (\<lambda>j. sort data ! j) idx) ! (nat k div 2)"
    by (simp add: estimated_median_def s i)
  note eq = score_median_eq [OF d(1) ok k, folded idx_def, unfolded Let_def, folded a e]
  show "returned (score_median mode k w) =
         Some (\<bar>estimated_median mode k w - actual_median mode w\<bar> / actual_median mode w)"
    if "actual_median mode w \<noteq> 0"
    using that by (simp add: eq returned_def)
  show "score_median mode k w = Inl ZeroDivisionError" if "actual_median mode w = 0"
    using that by (simp add: eq)
qed

lemma score_median_Some:
  assumes "returned (score_median mode k w) = Some s"
  shows "\<exists>data w1 e. experimental_data mode 16384 w = Inr (data, w1) \<and> data \<noteq> [] \<and>
           actual_median mode w = sort data ! (length data div 2) \<and>
           actual_median mode w \<noteq> 0 \<and> s = \<bar>e - actual_median mode w\<bar> / actual_median mode w"
proof (cases "experimental_data mode 16384 w")
  case (Inl e)
  then show ?thesis using assms by (simp add: score_median_def returned_def)
next
  case (Inr r)
  obtain data w1 where r: "r = (data, w1)" by (cases r)
  have a: "actual_median mode w = sort data ! (length data div 2)"
    by (simp add: actual_median_def population_def Inr r)
  show ?thesis
    using assms unfolding a
    by (auto simp: score_median_def returned_def Inr r Let_def
        split: if_splits sum.splits prod.splits)
qed

lemma medians_of_constant:
  assumes ok: "sample_ok w" and mode: "lower mode \<in> {''uniform'', ''normal'', ''exponential''}"
    and k: "1 \<le> k" "k \<le> 16384"
    and c: "\<forall>x\<in>set (population mode w). x = c"
  shows "actual_median mode w = c" "estimated_median mode k w = c"
proof -
  note sp = score_median_spec [OF ok mode k]
  have "population mode w ! (length (population mode w) div 2) \<in> set (population mode w)"
    using sp(1) by (intro nth_mem) simp
  then show "actual_median mode w = c" using c by (simp add: actual_median_def)
  have "0 < nat k" using k by simp
  then have "sort (subsample mode k w) ! (length (subsample mode k w) div 2)
      \<in> set (sort (subsample mode k w))"
    using sp(3) by (intro nth_mem) simp
  then have "estimated_median mode k w \<in># mset (subsample mode k w)"
    by (simp add: estimated_median_def)
  then have "estimated_median mode k w \<in># mset (population mode w)"
    using sp(4) by (meson mset_subset_eqD)
  then show "estimated_median mode k w = c" using c by simp
qed

lemma population_uniform:
  "set (population ''uniform'' w) = set (fst (draws rng_random 16384 w))"
  by (simp add: population_def experimental_data_uniform lower_uniform case_prod_beta)

lemma world_zero_median: "actual_median ''uniform'' world_zero = 0"
proof -
  have "sample_ok world_zero" by (rule sample_ok_first) (simp add: world_zero_def)
  moreover have "\<forall>x\<in>set (population ''uniform'' world_zero). x = 0"
    unfolding population_uniform
    by (rule draws_const_words [OF rng_random_zero]) (simp_all add: world_zero_def)
  ultimately show ?thesis
    by (intro medians_of_constant(1) [where k = 1]) (simp_all add: lower_uniform)
qed

lemma world_half_medians:
  "actual_median ''uniform'' world_half = 134217729 / 268435456"
  "estimated_median ''uniform'' 4 world_half = 134217729 / 268435456"
proof -
  have ok: "sample_ok world_half" by (rule sample_ok_first) (simp add: world_half_def)
  have c: "\<forall>x\<in>set (population ''uniform'' world_half). x = 134217729 / 268435456"
    unfolding population_uniform
    by (rule draws_const_words [OF rng_random_half]) (simp_all add: world_half_def)
  show "actual_median ''uniform'' world_half = 134217729 / 268435456"
    using ok _ _ _ c by (rule medians_of_constant(1) [where k = 4]) (simp_all add: lower_uniform)
  show "estimated_median ''uniform'' 4 world_half = 134217729 / 268435456"
    using ok _ _ _ c by (rule medians_of_constant(2)) (simp_all add: lower_uniform)
qed

text \<open>
  Claim C5 says that for every valid distribution name and every sample size from 1 to the
  population length \<open>score_median\<close> returns the relative error of the estimated median.
  On \<open>world_zero\<close> the population median is 0 and the call raises \<open>ZeroDivisionError\<close>.
\<close>

theorem C5_score_median_zero_median_counterexample:
  "score_median ''uniform'' 1 world_zero = Inl ZeroDivisionError"
proof -
  have "sample_ok world_zero" by (rule sample_ok_first) (simp add: world_zero_def)
  then show ?thesis
    using world_zero_median by (intro score_median_spec(6)) (simp_all add: lower_uniform)
qed

text \<open>
  Claim C5, amended. For every valid distribution name and every sample size from 1 to
  the population length, the population has 16384 elements, the subsample has as many
  elements as asked for and is drawn from the population without replacement, and
  \<open>score_median\<close> returns \<open>|estimated_median - actual_median| / actual_median\<close> whenever
  the actual median is not 0, where the actual median is the element at position \<open>len//2\<close>
  of the sorted population and the estimated median the element at position \<open>len//2\<close> of
  the sorted subsample. When the actual median is 0 the call raises \<open>ZeroDivisionError\<close>.
\<close>

theorem C5_score_median_formula:
  assumes "sample_ok w" and "lower mode \<in> {''uniform'', ''normal'', ''exponential''}"
    and "1 \<le> k" and "k \<le> 16384"
  shows "length (population mode w) = 16384 \<and> sorted (population mode w) \<and>
         length (subsample mode k w) = nat k \<and>
         mset (subsample mode k w) \<subseteq># mset (population mode w) \<and>
         (actual_median mode w \<noteq> 0 \<longrightarrow>
            returned (score_median mode k w) =
              Some (\<bar>estimated_median mode k w - actual_median mode w\<bar> / actual_median mode w)) \<and>
         (actual_median mode w = 0 \<longrightarrow> score_median mode k w = Inl ZeroDivisionError)"
  using score_median_spec [OF assms] by blast

text \<open>
  Claim C5 as amended, at sample size 4 in mode \<open>uniform\<close>: on \<open>world_half\<close> the two
  medians agree and the score is 0; on \<open>world_zero\<close> the actual median is 0 and the call
  raises.
\<close>

theorem C5_score_median_formula_witness:
  "sample_ok world_half \<and> lower ''uniform'' \<in> {''uniform'', ''normal'', ''exponential''} \<and>
   (1 :: int) \<le> 4 \<and> (4 :: int) \<le> 16384 \<and>
   actual_median ''uniform'' world_half \<noteq> 0 \<and>
   returned (score_median ''uniform'' 4 world_half) = Some 0 \<and>
   sample_ok world_zero \<and> actual_median ''uniform'' world_zero = 0 \<and>
   score_median ''uniform'' 4 world_zero = Inl ZeroDivisionError"
proof -
  have h: "sample_ok world_half" by (rule sample_ok_first) (simp add: world_half_def)
  have z: "sample_ok world_zero" by (rule sample_ok_first) (simp add: world_zero_def)
  have m: "lower ''uniform'' \<in> {''uniform'', ''normal'', ''exponential''}"
    by (simp add: lower_uniform)
  show ?thesis
    using C5_score_median_formula [OF h m, of 4] C5_score_median_formula [OF z m, of 4]
      h z m world_half_medians world_zero_median
    by simp
qed

lemma ln_2_ge_half: "1 / 2 \<le> ln (2 :: real)"
proof -
  have "ln (1 - 1 / 2) \<le> - (1 / 2 :: real)"
    by (rule ln_one_minus_pos_upper_bound) simp_all
  moreover have "ln (1 - 1 / 2 :: real) = - ln 2"
    by (simp add: ln_div)
  ultimately show ?thesis by simp
qed

lemma z_neg_le: "z_neg \<le> - 4"
proof -
  have "(1 :: real) - 9007199254740991 / 9007199254740992 = 1 / 9007199254740992" by simp
  moreover have "ln (9007199254740992 :: real) = 53 * ln 2"
    using ln_realpow [of "2 :: real" 53] by simp
  ultimately have "ln (1 - 9007199254740991 / 9007199254740992 :: real) = - (53 * ln 2)"
    by (simp add: ln_div)
  then have g: "- 2 * ln (1 - 9007199254740991 / 9007199254740992 :: real) = 106 * ln 2"
    by simp
  have "(49 :: real) \<le> 106 * ln 2" using ln_2_ge_half by simp
  then have "sqrt 49 \<le> sqrt (106 * ln 2)" by (rule real_sqrt_le_mono)
  moreover have "sqrt (49 :: real) = 7" by (rule real_sqrt_unique) simp_all
  ultimately have 1: "7 \<le> sqrt (106 * ln 2)" by simp
  have "sqrt ((7 / 5)\<^sup>2) \<le> sqrt (2 :: real)" by (rule real_sqrt_le_mono) (simp add: power2_eq_square)
  then have 2: "7 / 5 \<le> sqrt (2 :: real)" by simp
  have "7 / 10 * 7 \<le> sqrt 2 / 2 * sqrt (106 * ln 2)"
    using 1 2 by (intro mult_mono) simp_all
  then show ?thesis unfolding z_neg_def g by simp
qed

lemma v_neg_negative: "v_neg < 0"
proof -
  have "(10 + z_neg * 3) * 10 < - 1 / 2" using z_neg_le by simp
  then have "py_round ((10 + z_neg * 3) * 10) < 0" by (rule py_round_neg)
  then show ?thesis by (simp add: v_neg_def)
qed

lemma words_neg_at:
  assumes "4 \<le> p" "p mod 4 = 0"
  shows "words_neg p = 0xA0000000" "words_neg (Suc p) = 0"
    "words_neg (Suc (Suc p)) = 0xFFFFFFFF" "words_neg (Suc (Suc (Suc p))) = 0xFFFFFFFF"
proof -
  have "Suc p mod 4 = 1" "Suc (Suc p) mod 4 = 2" "Suc (Suc (Suc p)) mod 4 = 3"
    using assms(2) by presburger+
  then show "words_neg p = 0xA0000000" "words_neg (Suc p) = 0"
    "words_neg (Suc (Suc p)) = 0xFFFFFFFF" "words_neg (Suc (Suc (Suc p))) = 0xFFFFFFFF"
    using assms by (simp_all add: words_neg_def)
qed

lemma cos_5_8: "cos (5 / 8 * (2 * pi)) = - (sqrt 2 / 2)"
proof -
  have "5 / 8 * (2 * pi) = pi + pi / 4" by simp
  then show ?thesis by (simp only: cos_periodic_pi2 cos_45)
qed

lemma sin_5_8: "sin (5 / 8 * (2 * pi)) = - (sqrt 2 / 2)"
proof -
  have "5 / 8 * (2 * pi) = pi + pi / 4" by simp
  then show ?thesis by (simp only: sin_periodic_pi2 sin_45)
qed

lemma gauss_neg_step:
  assumes "neg_inv w"
  shows "fst (rng_gauss 10 3 w) = 10 + z_neg * 3 \<and> neg_inv (snd (rng_gauss 10 3 w))"
proof (cases "gauss_next w")
  case (Some z)
  then have "z = z_neg" using assms by (simp add: neg_inv_def)
  then show ?thesis using assms Some by (simp add: rng_gauss_cases neg_inv_def)
next
  case None
  have p: "4 \<le> mt_pos w" "mt_pos w mod 4 = 0" and o: "mt_out w = words_neg"
    using assms by (simp_all add: neg_inv_def)
  note wa = words_neg_at [OF p]
  have r1: "fst (rng_random w) = 5 / 8"
    by (simp add: rng_random_fst o wa)
  have r2: "fst (rng_random (w\<lparr>mt_pos := Suc (Suc (mt_pos w))\<rparr>)) =
      9007199254740991 / 9007199254740992"
    by (simp add: rng_random_fst o wa)
  have m: "(mt_pos w + 4) mod 4 = 0" using p(2) by presburger
  show ?thesis
    unfolding rng_gauss_None [OF None r1 r2] cos_5_8 sin_5_8
    using p o m by (simp add: z_neg_def neg_inv_def)
qed

lemma gauss_neg_first_two:
  "fst (draws (rng_gauss 10 3) 2 world_neg) = [10, 10]"
  "neg_inv (snd (draws (rng_gauss 10 3) 2 world_neg))"
proof -
  have o: "mt_out world_neg = words_neg" "mt_pos world_neg = 0" "gauss_next world_neg = None"
    by (simp_all add: world_neg_def)
  have r1: "fst (rng_random world_neg) = 0"
    by (simp add: rng_random_fst o words_neg_def)
  have r2: "fst (rng_random (world_neg\<lparr>mt_pos := Suc (Suc (mt_pos world_neg))\<rparr>)) = 0"
    by (simp add: rng_random_fst o words_neg_def)
  have g1: "rng_gauss 10 3 world_neg =
      (10, world_neg\<lparr>mt_pos := 4, gauss_next := Some 0\<rparr>)"
    unfolding rng_gauss_None [OF o(3) r1 r2] by (simp add: o)
  have g2: "rng_gauss 10 3 (world_neg\<lparr>mt_pos := 4, gauss_next := Some 0\<rparr>) =
      (10, world_neg\<lparr>mt_pos := 4, gauss_next := None\<rparr>)"
    by (simp add: rng_gauss_cases)
  show "fst (draws (rng_gauss 10 3) 2 world_neg) = [10, 10]"
    by (simp add: draws_2 g1 g2)
  show "neg_inv (snd (draws (rng_gauss 10 3) 2 world_neg))"
    by (simp add: draws_2 g1 g2 neg_inv_def o)
qed

lemma gauss_neg_draws:
  "fst (draws (rng_gauss 10 3) 16384 world_neg) = [10, 10] @ replicate 16382 (10 + z_neg * 3)"
proof -
  have "fst (draws (rng_gauss 10 3) (2 + 16382) world_neg) =
      [10, 10] @ replicate 16382 (10 + z_neg * 3)"
    unfolding draws_add fst_conv gauss_neg_first_two(1)
    using draws_const [of neg_inv "rng_gauss 10 3" "10 + z_neg * 3", OF gauss_neg_step gauss_neg_first_two(2)]
    by simp
  then show ?thesis by simp
qed

lemma world_neg_data:
  "\<exists>w1. experimental_data ''normal'' 16384 world_neg = Inr (neg_data, w1) \<and>
         sample_choice w1 = last_positions"
proof -
  have b: "binned ([10, 10] @ replicate 16382 (10 + z_neg * 3)) = neg_data"
    using binned_10 by (simp add: binned_def v_neg_def neg_data_def)
  have n: "nat 16384 = 16384" by simp
  have e: "experimental_data ''normal'' 16384 world_neg =
      Inr (neg_data, snd (draws (rng_gauss 10 3) 16384 world_neg))"
    unfolding experimental_data_normal [OF lower_normal] n gauss_neg_draws b ..
  from experimental_data_frame [OF e]
  have "sample_choice (snd (draws (rng_gauss 10 3) 16384 world_neg)) = last_positions"
    by (simp add: frame_def world_neg_def)
  then show ?thesis using e by blast
qed

lemma neg_data_sorted: "sort neg_data = replicate 16382 v_neg @ [10, 10]"
  unfolding neg_data_def
proof (rule properties_for_sort)
  show "mset (replicate 16382 v_neg @ [10, 10]) = mset ([10, 10] @ replicate 16382 v_neg)"
    by simp
  show "sorted (replicate 16382 v_neg @ [10, 10])"
    using v_neg_negative by (simp add: sorted_append sorted_replicate)
qed

lemma world_neg_medians:
  "actual_median ''normal'' world_neg = v_neg"
  "estimated_median ''normal'' 1 world_neg = 10"
proof -
  from world_neg_data obtain w1 where
    d: "experimental_data ''normal'' 16384 world_neg = Inr (neg_data, w1)"
    and c: "sample_choice w1 = last_positions" by blast
  have l: "length neg_data = 16384" by (simp add: neg_data_def)
  have p: "population ''normal'' world_neg = replicate 16382 v_neg @ [10, 10]"
    by (simp add: population_def d neg_data_sorted)
  show "actual_median ''normal'' world_neg = v_neg"
    by (simp add: actual_median_def p nth_append)
  have "subsample ''normal'' 1 world_neg = [10]"
    by (simp add: subsample_def d rng_sample_def c last_positions_def nth_append l neg_data_sorted)
  then show "estimated_median ''normal'' 1 world_neg = 10"
    by (simp add: estimated_median_def)
qed

lemma world_neg_score:
  "returned (score_median ''normal'' 1 world_neg) = Some (\<bar>10 - v_neg\<bar> / v_neg)"
proof -
  have "sample_ok world_neg" by (rule sample_ok_last) (simp add: world_neg_def)
  then show ?thesis
    using score_median_spec(5) [of world_neg "''normal''" 1] v_neg_negative
    by (simp add: world_neg_medians lower_normal)
qed

text \<open>
  Claim C6 says that the score is never negative. On \<open>world_neg\<close>, in mode \<open>normal\<close> with
  sample size 1, the population median is negative, the sample holds the value 10, and
  the score returned is negative.
\<close>

theorem C6_negative_median_counterexample:
  "returned (score_median ''normal'' 1 world_neg) \<noteq> None \<and>
   the (returned (score_median ''normal'' 1 world_neg)) < 0"
proof -
  have "\<bar>10 - v_neg\<bar> / v_neg < 0"
    using v_neg_negative by (simp add: divide_neg_pos field_simps)
  then show ?thesis by (simp add: world_neg_score)
qed

text \<open>
  Claim C6, amended. Every score that \<open>score_median\<close> returns in the modes \<open>uniform\<close> and
  \<open>exponential\<close> is at least 0, and so is every score it returns, in any mode, when the
  population median is positive.
\<close>

theorem C6_score_nonnegative:
  assumes "returned (score_median mode k w) = Some s"
  shows "(lower mode \<noteq> ''normal'' \<longrightarrow> 0 \<le> s) \<and> (0 < actual_median mode w \<longrightarrow> 0 \<le> s)"
proof -
  from score_median_Some [OF assms]
  obtain data w1 e where d: "experimental_data mode 16384 w = Inr (data, w1)" "data \<noteq> []"
    "actual_median mode w = sort data ! (length data div 2)"
    "actual_median mode w \<noteq> 0" "s = \<bar>e - actual_median mode w\<bar> / actual_median mode w"
    by blast
  have pos: "0 \<le> s" if "0 < actual_median mode w"
    using that d(5) by simp
  have "0 < actual_median mode w" if "lower mode \<noteq> ''normal''"
  proof -
    have "sort data ! (length data div 2) \<in> set (sort data)"
      using d(2) by (intro nth_mem) simp
    then have "0 \<le> actual_median mode w"
      using experimental_data_nonneg [OF d(1) that] d(3) by simp
    then show ?thesis using d(4) by simp
  qed
  then show ?thesis using pos by blast
qed

text \<open>
  Claim C6 as amended, on \<open>world_half\<close> at sample size 4 in mode \<open>uniform\<close>, where the
  score is 0.
\<close>

theorem C6_score_nonnegative_witness:
  "returned (score_median ''uniform'' 4 world_half) = Some 0 \<and>
   lower ''uniform'' \<noteq> ''normal'' \<and> 0 < actual_median ''uniform'' world_half \<and> (0 :: real) \<le> 0"
proof -
  have h: "sample_ok world_half" by (rule sample_ok_first) (simp add: world_half_def)
  have r: "returned (score_median ''uniform'' 4 world_half) = Some 0"
    using score_median_spec(5) [OF h, of "''uniform''" 4] world_half_medians
    by (simp add: lower_uniform)
  show ?thesis
    using C6_score_nonnegative [OF r] r world_half_medians by (simp add: lower_uniform)
qed

section \<open>Properties of \<open>run_test\<close> in both scripts\<close>























end
